theory Spec2Isabelle
  imports Main "HOL-Library.Sublist" "HOL-Library.AList"
begin

section \<open>Python exceptions\<close>

text \<open>
  The exceptions the modelled code can meet. \<open>SystemExit\<close> and \<open>KeyboardInterrupt\<close>
  derive from \<open>BaseException\<close> only, so an \<open>except Exception\<close> clause lets them pass.
\<close>

datatype py_exc =
    FileNotFoundError
  | IsADirectoryError
  | NotADirectoryError
  | FileExistsError
  | SameFileError
  | ValueError
  | URLError
  | OtherException string
  | SystemExit int
  | KeyboardInterrupt

fun is_Exception :: "py_exc \<Rightarrow> bool" where
  "is_Exception (SystemExit _) = False"
| "is_Exception KeyboardInterrupt = False"
| "is_Exception _ = True"

section \<open>The file system\<close>

text \<open>
  A file system is a tree of regular files and directories; a directory is an association
  list from entry names to nodes (looked up with \<open>map_of\<close>). A path is the list of names
  from the root (what \<open>Path.resolve()\<close> yields). Symbolic links, permissions and time
  stamps are not modelled.
\<close>

datatype node = File string | Dir "(string \<times> node) list"

type_synonym path = "string list"

fun lookup :: "node \<Rightarrow> path \<Rightarrow> node option" where
  "lookup n [] = Some n"
| "lookup (File c) (x # p) = None"
| "lookup (Dir es) (x # p) = (case map_of es x of None \<Rightarrow> None | Some c \<Rightarrow> lookup c p)"

definition exists :: "node \<Rightarrow> path \<Rightarrow> bool" where
  "exists fs p = (lookup fs p \<noteq> None)"

definition is_file :: "node \<Rightarrow> path \<Rightarrow> bool" where
  "is_file fs p = (case lookup fs p of Some (File c) \<Rightarrow> True | _ \<Rightarrow> False)"

definition is_dir :: "node \<Rightarrow> path \<Rightarrow> bool" where
  "is_dir fs p = (case lookup fs p of Some (Dir es) \<Rightarrow> True | _ \<Rightarrow> False)"

text \<open>\<open>Path.iterdir\<close>: the names of a directory's entries, read once.\<close>

definition iterdir :: "node \<Rightarrow> path \<Rightarrow> py_exc + string list" where
  "iterdir fs p =
     (case lookup fs p of
        None \<Rightarrow> Inl FileNotFoundError
      | Some (File c) \<Rightarrow> Inl NotADirectoryError
      | Some (Dir es) \<Rightarrow> Inr (map fst es))"

text \<open>A chain of fresh directories down to a node, as \<open>os.makedirs\<close> creates it.\<close>

fun mkpath :: "path \<Rightarrow> node \<Rightarrow> node" where
  "mkpath [] v = v"
| "mkpath (x # p) v = Dir [(x, mkpath p v)]"

text \<open>
  \<open>store mk p v fs\<close> puts node \<open>v\<close> at path \<open>p\<close>, replacing what is there. The parent
  must be a directory; when it is missing, it is created if \<open>mk\<close> holds and the call fails
  otherwise.
\<close>

fun store :: "bool \<Rightarrow> path \<Rightarrow> node \<Rightarrow> node \<Rightarrow> py_exc + node" where
  "store mk [] v n = Inl FileExistsError"
| "store mk (x # p) v (File c) = Inl NotADirectoryError"
| "store mk (x # p) v (Dir es) =
     (case map_of es x of
        None \<Rightarrow>
          (if p = [] then Inr (Dir (AList.update x v es))
           else if mk then Inr (Dir (AList.update x (mkpath p v) es))
           else Inl FileNotFoundError)
      | Some c \<Rightarrow>
          (if p = [] then Inr (Dir (AList.update x v es))
           else (case store mk p v c of
                   Inl e \<Rightarrow> Inl e
                 | Inr c' \<Rightarrow> Inr (Dir (AList.update x c' es)))))"

text \<open>\<open>remove p fs\<close> deletes the entry at \<open>p\<close>, if there is one. The root stays.\<close>

fun remove :: "path \<Rightarrow> node \<Rightarrow> node" where
  "remove [] n = n"
| "remove (x # p) (File c) = File c"
| "remove (x # p) (Dir es) =
     (if p = [] then Dir (AList.delete x es)
      else (case map_of es x of
              None \<Rightarrow> Dir es
            | Some c \<Rightarrow> Dir (AList.update x (remove p c) es)))"

text \<open>\<open>Path.unlink\<close>: removes a regular file.\<close>

definition unlink :: "path \<Rightarrow> node \<Rightarrow> py_exc + node" where
  "unlink p fs =
     (case lookup fs p of
        None \<Rightarrow> Inl FileNotFoundError
      | Some (Dir es) \<Rightarrow> Inl IsADirectoryError
      | Some (File c) \<Rightarrow> Inr (remove p fs))"

text \<open>
  \<open>shutil.rmtree(p, ignore_errors=True)\<close>: removes a directory tree; on a missing path or
  a regular file the error is swallowed and nothing changes.
\<close>

definition rmtree_ignore_errors :: "path \<Rightarrow> node \<Rightarrow> node" where
  "rmtree_ignore_errors p fs = (if is_dir fs p then remove p fs else fs)"

text \<open>
  \<open>shutil.copy2(src, dst)\<close>: \<open>src\<close> must be a regular file; when \<open>dst\<close> is a directory the
  copy goes inside it under the source's name; copying a file onto itself is refused.
\<close>

definition copy2 :: "path \<Rightarrow> path \<Rightarrow> node \<Rightarrow> py_exc + node" where
  "copy2 src dst fs =
     (case lookup fs src of
        None \<Rightarrow> Inl FileNotFoundError
      | Some (Dir es) \<Rightarrow> Inl IsADirectoryError
      | Some (File c) \<Rightarrow>
          (if is_dir fs dst then
             (if src = [] then Inl IsADirectoryError
              else if is_dir fs (dst @ [last src]) then Inl IsADirectoryError
              else if src = dst @ [last src] then Inl SameFileError
              else store False (dst @ [last src]) (File c) fs)
           else if src = dst then Inl SameFileError
           else store False dst (File c) fs))"

text \<open>
  \<open>shutil.copytree(src, dst)\<close>: \<open>src\<close> must be a directory and \<open>dst\<close> must not exist;
  missing parents of \<open>dst\<close> are created. The source tree is read as it is when the call
  starts, which is what happens when \<open>dst\<close> does not lie inside \<open>src\<close>.
\<close>

definition copytree :: "path \<Rightarrow> path \<Rightarrow> node \<Rightarrow> py_exc + node" where
  "copytree src dst fs =
     (case lookup fs src of
        None \<Rightarrow> Inl FileNotFoundError
      | Some (File c) \<Rightarrow> Inl NotADirectoryError
      | Some (Dir es) \<Rightarrow>
          (if exists fs dst then Inl FileExistsError
           else store True dst (Dir es) fs))"

text \<open>\<open>Path.write_bytes\<close>: creates or overwrites a regular file.\<close>

definition write_bytes :: "path \<Rightarrow> string \<Rightarrow> node \<Rightarrow> py_exc + node" where
  "write_bytes p content fs =
     (if is_dir fs p then Inl IsADirectoryError else store False p (File content) fs)"

text \<open>Two paths are separate when neither lies at or below the other.\<close>

definition separate :: "path \<Rightarrow> path \<Rightarrow> bool" where
  "separate p q = (\<not> prefix p q \<and> \<not> prefix q p)"

section \<open>The updater process (updates.py)\<close>

text \<open>
  What the updater does to the world is kept as a list of events, oldest first: sleeping,
  the two ways of asking a process to end, the liveness probe \<open>os.kill(pid, 0)\<close> with
  its answer, and the call of \<open>copy_update\<close> on its two directories. Time is a clock in
  milliseconds that only \<open>time.sleep\<close> advances; every other statement takes no time.
\<close>

datatype event = Sleep nat | Taskkill int | Sigterm int | Probe int bool | Apply path path

record world =
  files :: node
  clock :: nat
  events :: "event list"

text \<open>
  The surroundings the code reads but does not define: the platform, the answer of
  \<open>os.kill(pid, 0)\<close> at each time (\<open>True\<close> when it raises \<open>OSError\<close>, that is, the process
  is gone), \<open>Path(s).resolve()\<close> and \<open>int(s)\<close>.
\<close>

record env =
  windows :: bool
  pid_gone :: "int \<Rightarrow> nat \<Rightarrow> bool"
  resolve :: "string \<Rightarrow> path"
  py_int :: "string \<Rightarrow> int option"

datatype outcome = Exit int | Uncaught py_exc

definition log_event :: "event \<Rightarrow> world \<Rightarrow> world" where
  "log_event e w = w\<lparr>events := events w @ [e]\<rparr>"

definition sleep :: "nat \<Rightarrow> world \<Rightarrow> world" where
  "sleep d w = w\<lparr>clock := clock w + d, events := events w @ [Sleep d]\<rparr>"

text \<open>\<open>kill_process\<close>: one termination request; whatever it raises is swallowed.\<close>

definition kill_event :: "env \<Rightarrow> int \<Rightarrow> event" where
  "kill_event en pid = (if windows en then Taskkill pid else Sigterm pid)"

definition kill_process :: "env \<Rightarrow> int \<Rightarrow> world \<Rightarrow> world" where
  "kill_process en pid w = log_event (kill_event en pid) w"

text \<open>
  The loop of \<open>wait_process_end\<close>: while less than \<open>timeout\<close> has passed since \<open>start\<close>,
  probe the process; return when the probe raises, sleep half a second otherwise. When the
  time is up, \<open>kill_process\<close> is called.
\<close>

function wait_loop :: "env \<Rightarrow> int \<Rightarrow> nat \<Rightarrow> nat \<Rightarrow> world \<Rightarrow> world" where
  "wait_loop en pid start timeout w =
     (if clock w - start < timeout then
        (if pid_gone en pid (clock w) then log_event (Probe pid True) w
         else wait_loop en pid start timeout (sleep 500 (log_event (Probe pid False) w)))
      else kill_process en pid w)"
  by pat_completeness auto
termination
  by (relation "measure (\<lambda>(en, pid, start, timeout, w). start + timeout - clock w)")
     (auto simp: sleep_def log_event_def)

declare wait_loop.simps [simp del]

definition wait_process_end :: "env \<Rightarrow> int \<Rightarrow> nat \<Rightarrow> world \<Rightarrow> world" where
  "wait_process_end en pid timeout w = wait_loop en pid (clock w) timeout w"

text \<open>
  The body of the loop of \<open>copy_update\<close> for the entry names that \<open>iterdir\<close> gave. An
  exception leaves the file system as the earlier steps made it.
\<close>

fun copy_items :: "path \<Rightarrow> path \<Rightarrow> string list \<Rightarrow> node \<Rightarrow> py_exc option \<times> node" where
  "copy_items extract_dir destino [] fs = (None, fs)"
| "copy_items extract_dir destino (name # names) fs =
     (let item = extract_dir @ [name];
          dest_item = destino @ [name];
          cleared =
            (if exists fs dest_item then
               (if is_file fs dest_item then unlink dest_item fs
                else Inr (rmtree_ignore_errors dest_item fs))
             else Inr fs)
      in case cleared of
           Inl e \<Rightarrow> (Some e, fs)
         | Inr fs1 \<Rightarrow>
             (case (if is_file fs1 item then copy2 item dest_item fs1
                    else copytree item dest_item fs1) of
                Inl e \<Rightarrow> (Some e, fs1)
              | Inr fs2 \<Rightarrow> copy_items extract_dir destino names fs2))"

definition copy_update :: "path \<Rightarrow> path \<Rightarrow> node \<Rightarrow> py_exc option \<times> node" where
  "copy_update extract_dir destino fs =
     (case iterdir fs extract_dir of
        Inl e \<Rightarrow> (Some e, fs)
      | Inr names \<Rightarrow> copy_items extract_dir destino names fs)"

text \<open>Lines 60 to 65 of \<open>main\<close>: the pause, the termination request and the wait.\<close>

definition stop_old_process :: "env \<Rightarrow> int \<Rightarrow> world \<Rightarrow> world" where
  "stop_old_process en pid w = wait_process_end en pid 10000 (kill_process en pid (sleep 2000 w))"

text \<open>
  \<open>main\<close>, on the argument vector \<open>sys.argv\<close>. An exception nobody catches ends the
  interpreter; \<open>sys.exit(n)\<close> ends it with status \<open>n\<close>.
\<close>

definition main :: "env \<Rightarrow> string list \<Rightarrow> world \<Rightarrow> outcome \<times> world" where
  "main en argv w =
     (if length argv < 4 then (Exit 1, w)
      else
        (case py_int en (argv ! 1) of
           None \<Rightarrow> (Uncaught ValueError, w)
         | Some pid \<Rightarrow>
             (let destino = resolve en (argv ! 2);
                  extract_dir = resolve en (argv ! 3);
                  w1 = stop_old_process en pid w
              in if \<not> exists (files w1) extract_dir then (Exit 1, w1)
                 else
                   (let w2 = log_event (Apply extract_dir destino) w1
                    in case copy_update extract_dir destino (files w2) of
                         (Some e, fs1) \<Rightarrow>
                           (if is_Exception e then (Exit 1, w2\<lparr>files := fs1\<rparr>)
                            else (Uncaught e, w2\<lparr>files := fs1\<rparr>))
                       | (None, fs1) \<Rightarrow>
                           (Exit 0, w2\<lparr>files := rmtree_ignore_errors extract_dir fs1\<rparr>)))))"

text \<open>The status the operating system sees: an uncaught exception gives 1.\<close>

fun exit_status :: "outcome \<Rightarrow> int" where
  "exit_status (Exit n) = n"
| "exit_status (Uncaught e) = (case e of SystemExit n \<Rightarrow> n | _ \<Rightarrow> 1)"

section \<open>The application side (AutoUpdate.py)\<close>

text \<open>
  Where a bundled \<open>root.json\<close> may lie: \<open>sys.frozen\<close>, \<open>sys._MEIPASS\<close> when it is set, and
  the directory of the executable or of the script.
\<close>

record runtime =
  frozen :: bool
  meipass :: "path option"
  exe_dir :: path
  script_dir :: path

definition find_bundled_root :: "runtime \<Rightarrow> node \<Rightarrow> path option" where
  "find_bundled_root rt fs =
     (let first =
            (if frozen rt then
               (case meipass rt of
                  None \<Rightarrow> None
                | Some m \<Rightarrow> (if exists fs (m @ [''root.json'']) then Some (m @ [''root.json'']) else None))
             else None)
      in case first of
           Some b \<Rightarrow> Some b
         | None \<Rightarrow>
             (let here = (if frozen rt then exe_dir rt else script_dir rt)
              in if exists fs (here @ [''root.json'']) then Some (here @ [''root.json'']) else None))"

definition copy_bundled_root_if_available :: "runtime \<Rightarrow> path \<Rightarrow> node \<Rightarrow> (py_exc + bool) \<times> node" where
  "copy_bundled_root_if_available rt metadata_dir fs =
     (case find_bundled_root rt fs of
        None \<Rightarrow> (Inr False, fs)
      | Some bundled_root \<Rightarrow>
          (let dst = metadata_dir @ [''root.json''];
               vdst = metadata_dir @ [''1.root.json'']
           in if \<not> exists fs dst then
                (case copy2 bundled_root dst fs of
                   Inl e \<Rightarrow> (Inl e, fs)
                 | Inr fs1 \<Rightarrow>
                     (if \<not> exists fs1 vdst then
                        (case copy2 bundled_root vdst fs1 of
                           Inl e \<Rightarrow> (Inl e, fs1)
                         | Inr fs2 \<Rightarrow> (Inr True, fs2))
                      else (Inr True, fs1)))
              else (Inr True, fs)))"

text \<open>
  The loop that both \<open>_initialize_metadata\<close> and \<open>check_for_updates\<close> run over the names
  of the mutable metadata files.
\<close>

definition mutable_names :: "string list" where
  "mutable_names = [''timestamp.json'', ''snapshot.json'', ''targets.json'']"

fun unlink_present :: "path \<Rightarrow> string list \<Rightarrow> node \<Rightarrow> py_exc option \<times> node" where
  "unlink_present metadata_dir [] fs = (None, fs)"
| "unlink_present metadata_dir (fname # fnames) fs =
     (if exists fs (metadata_dir @ [fname]) then
        (case unlink (metadata_dir @ [fname]) fs of
           Inl e \<Rightarrow> (Some e, fs)
         | Inr fs1 \<Rightarrow> unlink_present metadata_dir fnames fs1)
      else unlink_present metadata_dir fnames fs)"

text \<open>
  \<open>_download_metadata_file\<close>; \<open>net url\<close> is what \<open>urllib.request.urlopen(url).read()\<close>
  gives: the content, or the exception it raises.
\<close>

definition download_metadata_file ::
  "(string \<Rightarrow> py_exc + string) \<Rightarrow> path \<Rightarrow> string \<Rightarrow> string \<Rightarrow> node \<Rightarrow> py_exc option \<times> node" where
  "download_metadata_file net metadata_dir filename metadata_target fs =
     (case net (metadata_target @ filename) of
        Inl e \<Rightarrow> (Some e, fs)
      | Inr content \<Rightarrow>
          (case write_bytes (metadata_dir @ [filename]) content fs of
             Inl e \<Rightarrow> (Some e, fs)
           | Inr fs1 \<Rightarrow> (None, fs1)))"

fun download_all ::
  "(string \<Rightarrow> py_exc + string) \<Rightarrow> path \<Rightarrow> string list \<Rightarrow> string \<Rightarrow> node \<Rightarrow> py_exc option \<times> node" where
  "download_all net metadata_dir [] metadata_target fs = (None, fs)"
| "download_all net metadata_dir (fname # fnames) metadata_target fs =
     (case download_metadata_file net metadata_dir fname metadata_target fs of
        (Some e, fs1) \<Rightarrow> (Some e, fs1)
      | (None, fs1) \<Rightarrow> download_all net metadata_dir fnames metadata_target fs1)"

text \<open>\<open>AppUpdater._initialize_metadata\<close>: \<open>None\<close> when it returns, the exception otherwise.\<close>

definition initialize_metadata ::
  "runtime \<Rightarrow> (string \<Rightarrow> py_exc + string) \<Rightarrow> path \<Rightarrow> string \<Rightarrow> node \<Rightarrow> py_exc option \<times> node" where
  "initialize_metadata rt net metadata_dir metadata_target fs =
     (case unlink_present metadata_dir mutable_names fs of
        (Some e, fs1) \<Rightarrow> (Some e, fs1)
      | (None, fs1) \<Rightarrow>
          (let root_file = metadata_dir @ [''root.json''];
               versioned_root = metadata_dir @ [''1.root.json'']
           in if exists fs1 root_file \<and> exists fs1 versioned_root then (None, fs1)
              else
                (case copy_bundled_root_if_available rt metadata_dir fs1 of
                   (Inl e, fs2) \<Rightarrow> (Some e, fs2)
                 | (Inr True, fs2) \<Rightarrow>
                     (if \<not> exists fs2 versioned_root then
                        download_metadata_file net metadata_dir ''1.root.json'' metadata_target fs2
                      else (None, fs2))
                 | (Inr False, fs2) \<Rightarrow>
                     download_all net metadata_dir [''1.root.json'', ''root.json'']
                       metadata_target fs2)))"

text \<open>
  The release descriptor of the verification client, as far as the code reads it:
  \<open>latest_meta.filename\<close> and \<open>latest_meta.version.base_version\<close>.
\<close>

record target_meta =
  filename :: string
  base_version :: string


text \<open>
  The \<open>AppUpdater\<close> object: its metadata directory, the client's \<open>_target_base_url\<close>,
  \<open>_latest_meta\<close>, and the file system it works on.
\<close>

record app_updater =
  metadata_dir :: path
  target_base_url :: string
  latest_meta :: "target_meta option"
  disk :: node

text \<open>
  \<open>AppUpdater.check_for_updates\<close>. The client's own \<open>check_for_updates\<close> is a parameter:
  from the file system it sees, it returns a descriptor, \<open>None\<close>, or raises, and may
  write its metadata files.
\<close>

definition check_for_updates ::
  "(node \<Rightarrow> (py_exc + target_meta option) \<times> node) \<Rightarrow> app_updater \<Rightarrow>
     (py_exc + target_meta option) \<times> app_updater" where
  "check_for_updates client u =
     (let handler = (\<lambda>e u'. if is_Exception e then (Inr None, u') else (Inl e, u'))
      in case unlink_present (metadata_dir u) mutable_names (disk u) of
           (Some e, fs1) \<Rightarrow> handler e (u\<lparr>disk := fs1\<rparr>)
         | (None, fs1) \<Rightarrow>
             (case client fs1 of
                (Inl e, fs2) \<Rightarrow> handler e (u\<lparr>disk := fs2\<rparr>)
              | (Inr (Some m), fs2) \<Rightarrow>
                  (Inr (Some m),
                   u\<lparr>target_base_url := target_base_url u @ ''v'' @ base_version m @ ''/'',
                     latest_meta := Some m, disk := fs2\<rparr>)
              | (Inr None, fs2) \<Rightarrow> (Inr None, u\<lparr>latest_meta := None, disk := fs2\<rparr>)))"

text \<open>
  \<open>custom_install\<close>. The arguments given to \<open>subprocess.Popen\<close> are kept as they are
  before \<open>str\<close>; \<open>popen\<close> says whether the launch raises. The function has no normal
  return: the result is the exception that leaves it and the commands launched.
\<close>

datatype arg = StrPath path | StrInt int

definition custom_install ::
  "(arg list \<Rightarrow> py_exc option) \<Rightarrow> int \<Rightarrow> path \<Rightarrow> path \<Rightarrow> node \<Rightarrow> py_exc \<times> arg list list" where
  "custom_install popen getpid src_dir dst_dir fs =
     (let updater = dst_dir @ [''updater.exe'']
      in if \<not> exists fs updater then (FileNotFoundError, [])
         else
           (let cmd = [StrPath updater, StrInt getpid, StrPath dst_dir, StrPath src_dir]
            in case popen cmd of
                 Some e \<Rightarrow> (e, [])
               | None \<Rightarrow> (SystemExit 0, [cmd])))"

text \<open>
  \<open>AppUpdater.download_and_apply_update\<close>, from what the client's call does: it returns,
  or an exception leaves it. \<open>SystemExit\<close> is raised again, any \<open>Exception\<close> gives \<open>False\<close>.
\<close>

definition download_and_apply_update :: "py_exc option \<Rightarrow> py_exc + bool" where
  "download_and_apply_update r =
     (case r of
        None \<Rightarrow> Inr True
      | Some e \<Rightarrow> (if is_Exception e then Inr False else Inl e))"

text \<open>
  \<open>AutoUpdate.update\<close>, from what its steps do: the exception out of the \<open>AppUpdater\<close>
  constructor if any, the outcome of \<open>check_for_updates\<close>, the outcome of
  \<open>download_and_apply_update\<close>, and the exception out of \<open>input\<close> if any. The result is
  the exception that leaves \<open>update\<close>, \<open>None\<close> when it returns to the application: the two
  handlers catch every \<open>Exception\<close> and \<open>KeyboardInterrupt\<close>, and \<open>SystemExit\<close> ends the
  process.
\<close>

definition update ::
  "py_exc option \<Rightarrow> py_exc + target_meta option \<Rightarrow> py_exc + bool \<Rightarrow> py_exc option \<Rightarrow>
     py_exc option" where
  "update constructed new_version applied input_raises =
     (let body =
            (case constructed of
               Some e \<Rightarrow> Some e
             | None \<Rightarrow>
                 (case new_version of
                    Inl e \<Rightarrow> Some e
                  | Inr None \<Rightarrow> None
                  | Inr (Some m) \<Rightarrow>
                      (case applied of
                         Inl e \<Rightarrow> Some e
                       | Inr False \<Rightarrow> None
                       | Inr True \<Rightarrow>
                           (case input_raises of
                              Some e \<Rightarrow> Some e
                            | None \<Rightarrow> Some (SystemExit 0)))))
      in case body of
           None \<Rightarrow> None
         | Some e \<Rightarrow> (if is_Exception e \<or> e = KeyboardInterrupt then None else Some e))"

section \<open>The wait as the specification words it\<close>

text \<open>
  \<open>polls pid n\<close> is the trace of \<open>n\<close> probes that found the process alive, each followed
  by the half second of sleep.
\<close>

fun polls :: "int \<Rightarrow> nat \<Rightarrow> event list" where
  "polls pid 0 = []"
| "polls pid (Suc n) = Probe pid False # Sleep 500 # polls pid n"

text \<open>
  The specification's Wait and ForceKill states say that a termination is issued only once
  the polling has lasted for the timeout of ten seconds. \<open>kill_only_after_timeout t evs\<close>
  reads a trace with that rule; \<open>t\<close> is the time slept since the first probe, \<open>None\<close>
  before it.
\<close>

fun kill_only_after_timeout :: "nat option \<Rightarrow> event list \<Rightarrow> bool" where
  "kill_only_after_timeout t [] = True"
| "kill_only_after_timeout t (Probe p g # evs) =
     kill_only_after_timeout (Some (case t of None \<Rightarrow> 0 | Some n \<Rightarrow> n)) evs"
| "kill_only_after_timeout t (Sleep d # evs) =
     kill_only_after_timeout (map_option (\<lambda>n. n + d) t) evs"
| "kill_only_after_timeout t (Taskkill p # evs) =
     ((case t of None \<Rightarrow> False | Some n \<Rightarrow> 10000 \<le> n) \<and> kill_only_after_timeout t evs)"
| "kill_only_after_timeout t (Sigterm p # evs) =
     ((case t of None \<Rightarrow> False | Some n \<Rightarrow> 10000 \<le> n) \<and> kill_only_after_timeout t evs)"
| "kill_only_after_timeout t (Apply a b # evs) = kill_only_after_timeout t evs"

section \<open>Concrete inputs\<close>

text \<open>
  A small installation: \<open>/install\<close> holds an old \<open>a.txt\<close>, \<open>c.txt\<close> and the updater;
  \<open>/staged\<close> holds the new \<open>a.txt\<close> and \<open>sub/b.txt\<close>; \<open>/plain\<close> is a regular file.
\<close>

definition example_fs :: node where
  "example_fs =
     Dir [(''install'', Dir [(''a.txt'', File ''old''), (''c.txt'', File ''keep''),
                             (''updater.exe'', File ''updater'')]),
          (''staged'', Dir [(''a.txt'', File ''new''), (''sub'', Dir [(''b.txt'', File ''b'')])]),
          (''plain'', File ''x'')]"

text \<open>The example of the specification: staged \<open>{a.txt, sub/b.txt}\<close>, destination \<open>{a.txt(old), c.txt}\<close>.\<close>

definition apply_example_fs :: node where
  "apply_example_fs =
     Dir [(''install'', Dir [(''a.txt'', File ''old''), (''c.txt'', File ''keep'')]),
          (''staged'', Dir [(''a.txt'', File ''new''), (''sub'', Dir [(''b.txt'', File ''b'')])])]"

definition example_resolve :: "string \<Rightarrow> path" where
  "example_resolve s =
     (if s = ''/install'' then [''install'']
      else if s = ''/staged'' then [''staged'']
      else if s = ''/plain'' then [''plain'']
      else [''missing''])"

definition example_int :: "string \<Rightarrow> int option" where
  "example_int s = (if s = ''7'' then Some 7 else None)"

text \<open>The old process is gone from second 3 on, or never.\<close>

definition example_env :: env where
  "example_env =
     \<lparr>windows = False, pid_gone = (\<lambda>pid t. 3000 \<le> t), resolve = example_resolve,
      py_int = example_int\<rparr>"

definition stubborn_env :: env where
  "stubborn_env =
     \<lparr>windows = False, pid_gone = (\<lambda>pid t. False), resolve = example_resolve,
      py_int = example_int\<rparr>"

definition example_world :: world where
  "example_world = \<lparr>files = example_fs, clock = 0, events = []\<rparr>"

text \<open>
  A metadata directory with a trust root but no versioned root, no bundled root anywhere,
  and an origin that serves \<open>fresh\<close> under every URL.
\<close>

definition example_metadata_fs :: node where
  "example_metadata_fs =
     Dir [(''metadata'', Dir [(''root.json'', File ''pinned''),
                              (''timestamp.json'', File ''stale'')]),
          (''app'', Dir [])]"

text \<open>The same with both roots in place, and with a root bundled beside the script.\<close>

definition example_initialized_fs :: node where
  "example_initialized_fs =
     Dir [(''metadata'', Dir [(''root.json'', File ''pinned''), (''1.root.json'', File ''pinned''),
                              (''timestamp.json'', File ''stale'')]),
          (''app'', Dir [])]"

definition example_bundled_fs :: node where
  "example_bundled_fs =
     Dir [(''metadata'', Dir [(''root.json'', File ''pinned'')]),
          (''app'', Dir [(''root.json'', File ''bundled'')])]"

definition example_runtime :: runtime where
  "example_runtime = \<lparr>frozen = False, meipass = None, exe_dir = [''app''], script_dir = [''app'']\<rparr>"

definition example_net :: "string \<Rightarrow> py_exc + string" where
  "example_net url = Inr ''fresh''"

definition example_updater :: app_updater where
  "example_updater =
     \<lparr>metadata_dir = [''metadata''], target_base_url = ''https://host/download/'',
      latest_meta = None, disk = example_metadata_fs\<rparr>"

definition failing_client :: "node \<Rightarrow> (py_exc + target_meta option) \<times> node" where
  "failing_client fs = (Inl URLError, fs)"


section \<open>What storing and removing change\<close>

lemma lookup_append:
  "lookup fs (p @ q) = (case lookup fs p of None \<Rightarrow> None | Some n \<Rightarrow> lookup n q)"
proof (induction p arbitrary: fs)
  case Nil
  show ?case by simp
next
  case (Cons x p)
  show ?case
  proof (cases fs)
    case (File c)
    then show ?thesis by simp
  next
    case (Dir es)
    then show ?thesis using Cons.IH by (simp split: option.splits)
  qed
qed

lemma lookup_mkpath_same: "lookup (mkpath p v) (p @ q) = lookup v q"
  by (induction p) simp_all

lemma lookup_mkpath_other:
  "\<not> prefix p q \<Longrightarrow> \<not> prefix q p \<Longrightarrow> lookup (mkpath p v) q = None"
proof (induction p arbitrary: q)
  case Nil
  then show ?case by simp
next
  case (Cons x p)
  then show ?case by (cases q) auto
qed

lemma store_same:
  "store mk p v fs = Inr fs' \<Longrightarrow> lookup fs' (p @ q) = lookup v q"
proof (induction p arbitrary: fs fs')
  case Nil
  then show ?case by simp
next
  case (Cons x p)
  then show ?case
    by (cases fs)
       (auto simp: update_conv' lookup_mkpath_same split: option.splits if_splits sum.splits)
qed

lemma store_other:
  "store mk p v fs = Inr fs' \<Longrightarrow> \<not> prefix p q \<Longrightarrow> \<not> prefix q p \<Longrightarrow>
     lookup fs' q = lookup fs q"
proof (induction p arbitrary: fs fs' q)
  case Nil
  then show ?case by simp
next
  case (Cons x p)
  obtain y r where q: "q = y # r" using Cons.prems by (cases q) auto
  from Cons.prems obtain es where fs: "fs = Dir es" by (cases fs) auto
  show ?case
  proof (cases "y = x")
    case False
    with Cons.prems q fs show ?thesis
      by (auto simp: update_conv' split: option.splits if_splits sum.splits)
  next
    case True
    with Cons.prems q have np: "\<not> prefix p r" "\<not> prefix r p" by auto
    then have pne: "p \<noteq> []" by auto
    show ?thesis
    proof (cases "map_of es x")
      case None
      with Cons.prems fs pne have "fs' = Dir (AList.update x (mkpath p v) es)"
        by (auto split: if_splits)
      with None q True fs np show ?thesis
        by (simp add: update_conv' lookup_mkpath_other)
    next
      case (Some c)
      with Cons.prems fs pne obtain c' where c': "store mk p v c = Inr c'"
        and fs': "fs' = Dir (AList.update x c' es)"
        by (auto split: sum.splits)
      from Cons.IH[OF c' np] Some q True fs fs' show ?thesis
        by (simp add: update_conv')
    qed
  qed
qed

lemma store_above:
  "store mk (q @ r) v fs = Inr fs' \<Longrightarrow> r \<noteq> [] \<Longrightarrow> is_dir fs' q"
proof (induction q arbitrary: fs fs')
  case Nil
  then show ?case by (cases r; cases fs) (auto simp: is_dir_def split: option.splits if_splits sum.splits)
next
  case (Cons x q)
  from Cons.prems obtain es where fs: "fs = Dir es" by (cases fs) auto
  have ne: "q @ r \<noteq> []" using Cons.prems by simp
  show ?case
  proof (cases "map_of es x")
    case None
    with Cons.prems fs ne have "fs' = Dir (AList.update x (mkpath (q @ r) v) es)"
      by (auto split: if_splits)
    moreover have "is_dir (mkpath (q @ r) v) q" using \<open>r \<noteq> []\<close>
      by (induction q) (cases r, auto simp: is_dir_def)
    ultimately show ?thesis by (simp add: is_dir_def update_conv')
  next
    case (Some c)
    with Cons.prems fs ne obtain c' where c': "store mk (q @ r) v c = Inr c'"
      and fs': "fs' = Dir (AList.update x c' es)"
      by (auto split: sum.splits)
    from Cons.IH[OF c' Cons.prems(2)] fs' show ?thesis
      by (simp add: is_dir_def update_conv')
  qed
qed

lemma store_succeeds:
  "is_dir fs d \<Longrightarrow> \<exists>fs'. store mk (d @ [x]) v fs = Inr fs'"
proof (induction d arbitrary: fs)
  case Nil
  then show ?case by (cases fs) (auto simp: is_dir_def split: option.splits)
next
  case (Cons y d)
  from Cons.prems obtain es where fs: "fs = Dir es" by (cases fs) (auto simp: is_dir_def)
  with Cons.prems obtain c where c: "map_of es y = Some c" and d: "is_dir c d"
    by (auto simp: is_dir_def split: option.splits)
  from Cons.IH[OF d] obtain c' where "store mk (d @ [x]) v c = Inr c'" by blast
  with fs c show ?case by simp
qed

lemma remove_same: "p \<noteq> [] \<Longrightarrow> lookup (remove p fs) (p @ q) = None"
proof (induction p arbitrary: fs)
  case Nil
  then show ?case by simp
next
  case (Cons x p)
  then show ?case
    by (cases fs) (auto simp: update_conv' delete_conv' split: option.splits)
qed

lemma remove_other:
  "\<not> prefix p q \<Longrightarrow> \<not> prefix q p \<Longrightarrow> lookup (remove p fs) q = lookup fs q"
proof (induction p arbitrary: fs q)
  case Nil
  then show ?case by simp
next
  case (Cons x p)
  obtain y r where q: "q = y # r" using Cons.prems by (cases q) auto
  show ?case
  proof (cases fs)
    case (File c)
    then show ?thesis by simp
  next
    case (Dir es)
    show ?thesis
    proof (cases "y = x")
      case False
      with q Dir show ?thesis
        by (auto simp: update_conv' delete_conv' split: option.splits)
    next
      case True
      with Cons.prems q have np: "\<not> prefix p r" "\<not> prefix r p" by auto
      then have "p \<noteq> []" by auto
      with Cons.IH[OF np] q True Dir show ?thesis
        by (auto simp: update_conv' split: option.splits)
    qed
  qed
qed

lemma remove_above:
  "r \<noteq> [] \<Longrightarrow> lookup (remove (q @ r) fs) q = map_option (remove r) (lookup fs q)"
proof (induction q arbitrary: fs)
  case Nil
  show ?case by simp
next
  case (Cons x q)
  show ?case
  proof (cases fs)
    case (File c)
    then show ?thesis by simp
  next
    case (Dir es)
    with Cons show ?thesis
      by (auto simp: update_conv' split: option.splits)
  qed
qed

section \<open>Separate paths, and one round of the copy loop\<close>

lemma separate_child: "separate q d \<Longrightarrow> separate q (d @ [x])"
  by (auto simp: separate_def prefix_snoc intro: prefix_order.trans[OF prefixI])

lemma separate_below: "separate q d \<Longrightarrow> prefix d p \<Longrightarrow> separate q p"
  unfolding separate_def
  by (meson prefix_order.trans prefix_same_cases)

lemma separate_siblings: "x \<noteq> y \<Longrightarrow> separate (d @ [x]) (d @ [y])"
  by (auto simp: separate_def)

lemma separate_sym: "separate p q \<Longrightarrow> separate q p"
  by (simp add: separate_def)

lemma cleared_eq:
  "(if exists fs d then (if is_file fs d then unlink d fs else Inr (rmtree_ignore_errors d fs))
    else Inr fs) = Inr (if exists fs d then remove d fs else fs)"
  by (auto simp: exists_def is_file_def unlink_def rmtree_ignore_errors_def is_dir_def
      split: option.splits node.splits)

lemma cleared_gone: "d \<noteq> [] \<Longrightarrow> \<not> exists (if exists fs d then remove d fs else fs) d"
  using remove_same[of d fs "[]"] by (auto simp: exists_def)

lemma cleared_other:
  "separate q d \<Longrightarrow> lookup (if exists fs d then remove d fs else fs) q = lookup fs q"
  by (simp add: separate_def remove_other)

lemma remove_keeps_dir: "is_dir fs d \<Longrightarrow> is_dir (remove (d @ [x]) fs) d"
  using remove_above[of "[x]" d fs]
  by (cases "lookup fs d") (auto simp: is_dir_def split: node.splits)

lemma cleared_keeps_dir:
  "is_dir fs d \<Longrightarrow> is_dir (if exists fs (d @ [x]) then remove (d @ [x]) fs else fs) d"
  by (simp add: remove_keeps_dir)

lemma copy_entry:
  assumes ne: "\<not> exists fs1 (d @ [x])" and it: "lookup fs1 item = Some node" and dd: "is_dir fs1 d"
  shows "\<exists>fs2. (if is_file fs1 item then copy2 item (d @ [x]) fs1 else copytree item (d @ [x]) fs1)
             = Inr fs2 \<and> store (\<not> is_file fs1 item) (d @ [x]) node fs1 = Inr fs2"
proof -
  from ne have nd: "\<not> is_dir fs1 (d @ [x])" by (auto simp: exists_def is_dir_def)
  from store_succeeds[OF dd] obtain fs2 where "store (\<not> is_file fs1 item) (d @ [x]) node fs1 = Inr fs2"
    by blast
  moreover from ne it have "item \<noteq> d @ [x]" by (auto simp: exists_def)
  ultimately show ?thesis using ne nd it
    by (cases node) (auto simp: is_file_def copy2_def copytree_def)
qed

lemma copy_step:
  assumes sep: "separate src dst" and src: "lookup fs src = Some (Dir es)"
    and dst: "is_dir fs dst" and nm: "map_of es name = Some node"
  shows "\<exists>fs2. copy_items src dst (name # names) fs = copy_items src dst names fs2 \<and>
           lookup fs2 src = Some (Dir es) \<and> is_dir fs2 dst \<and>
           lookup fs2 (dst @ [name]) = Some node \<and>
           (\<forall>q. separate q (dst @ [name]) \<longrightarrow> lookup fs2 q = lookup fs q)"
proof -
  let ?d = "dst @ [name]"
  let ?fs1 = "if exists fs ?d then remove ?d fs else fs"
  have sd: "separate src ?d" using sep by (rule separate_child)
  have s1: "lookup ?fs1 src = Some (Dir es)" using cleared_other[OF sd] src by simp
  then have it: "lookup ?fs1 (src @ [name]) = Some node" using nm by (simp add: lookup_append)
  have d1: "is_dir ?fs1 dst" using dst by (rule cleared_keeps_dir)
  have g1: "\<not> exists ?fs1 ?d" by (rule cleared_gone) simp
  from copy_entry[OF g1 it d1] obtain fs2 where
    c: "(if is_file ?fs1 (src @ [name]) then copy2 (src @ [name]) ?d ?fs1
         else copytree (src @ [name]) ?d ?fs1) = Inr fs2"
    and st: "store (\<not> is_file ?fs1 (src @ [name])) ?d node ?fs1 = Inr fs2" by blast
  have step: "copy_items src dst (name # names) fs = copy_items src dst names fs2"
    using c by (simp add: cleared_eq Let_def del: if_split cong: if_cong)
  have a: "lookup fs2 src = Some (Dir es)"
    using store_other[OF st] sd s1 by (simp add: separate_def)
  have b: "is_dir fs2 dst" using store_above[OF st] by simp
  have e: "lookup fs2 ?d = Some node" using store_same[OF st, of "[]"] by simp
  have f: "\<forall>q. separate q ?d \<longrightarrow> lookup fs2 q = lookup fs q"
  proof (intro allI impI)
    fix q assume q: "separate q ?d"
    then have "lookup fs2 q = lookup ?fs1 q" using store_other[OF st] by (simp add: separate_def)
    also have "\<dots> = lookup fs q" using q by (rule cleared_other)
    finally show "lookup fs2 q = lookup fs q" .
  qed
  from step a b e f show ?thesis by blast
qed

lemma copy_items_replaces:
  assumes sep: "separate src dst" and src: "lookup fs src = Some (Dir es)"
    and dst: "is_dir fs dst" and sub: "set names \<subseteq> fst ` set es"
  shows "\<exists>fs'. copy_items src dst names fs = (None, fs') \<and>
           (\<forall>n. lookup fs' (dst @ [n]) =
                  (if n \<in> set names then map_of es n else lookup fs (dst @ [n]))) \<and>
           (\<forall>q. separate q dst \<longrightarrow> lookup fs' q = lookup fs q)"
  using src dst sub
proof (induction names arbitrary: fs)
  case Nil
  then show ?case by simp
next
  case (Cons name names)
  from Cons.prems(3) obtain node where nm: "map_of es name = Some node"
    by (cases "map_of es name") (auto simp: map_of_eq_None_iff)
  from copy_step[OF sep Cons.prems(1) Cons.prems(2) nm, of names] obtain fs2 where
    step: "copy_items src dst (name # names) fs = copy_items src dst names fs2"
    and a: "lookup fs2 src = Some (Dir es)" and b: "is_dir fs2 dst"
    and e: "lookup fs2 (dst @ [name]) = Some node"
    and f: "\<forall>q. separate q (dst @ [name]) \<longrightarrow> lookup fs2 q = lookup fs q" by blast
  from Cons.prems(3) have sub': "set names \<subseteq> fst ` set es" by simp
  from Cons.IH[OF a b sub'] obtain fs' where
    r: "copy_items src dst names fs2 = (None, fs')"
    and g: "\<forall>n. lookup fs' (dst @ [n]) =
                  (if n \<in> set names then map_of es n else lookup fs2 (dst @ [n]))"
    and h: "\<forall>q. separate q dst \<longrightarrow> lookup fs' q = lookup fs2 q" by blast
  have "\<forall>n. lookup fs' (dst @ [n]) =
              (if n \<in> set (name # names) then map_of es n else lookup fs (dst @ [n]))"
  proof
    fix n
    show "lookup fs' (dst @ [n]) =
            (if n \<in> set (name # names) then map_of es n else lookup fs (dst @ [n]))"
    proof (cases "n = name")
      case True
      with g e nm show ?thesis by simp
    next
      case False
      then have "lookup fs2 (dst @ [n]) = lookup fs (dst @ [n])"
        using f separate_siblings[of n name dst] by simp
      with g False show ?thesis by simp
    qed
  qed
  moreover have "\<forall>q. separate q dst \<longrightarrow> lookup fs' q = lookup fs q"
    using h f separate_child by simp
  ultimately show ?case using step r by simp
qed



lemma copy2_other:
  assumes "copy2 s d fs = Inr fs'" and "separate q d"
  shows "lookup fs' q = lookup fs q"
proof -
  from assms(1) obtain c where
    "store False (d @ [last s]) (File c) fs = Inr fs' \<or> store False d (File c) fs = Inr fs'"
    by (auto simp: copy2_def split: option.splits node.splits if_splits)
  then have "\<exists>p. prefix d p \<and> store False p (File c) fs = Inr fs'"
    by (auto intro: exI[of _ "d @ [last s]"] exI[of _ d])
  then obtain p where p: "prefix d p" and st: "store False p (File c) fs = Inr fs'" by blast
  from separate_below[OF assms(2) p] have "separate q p" .
  with store_other[OF st] show ?thesis by (simp add: separate_def)
qed






section \<open>Exceptions of the metadata loop, and the file system during the wait\<close>

lemma unlink_raises_Exception: "unlink p fs = Inl e \<Longrightarrow> is_Exception e"
  by (auto simp: unlink_def split: option.splits node.splits)

lemma unlink_present_raises_Exception:
  "unlink_present d ns fs = (Some e, fs') \<Longrightarrow> is_Exception e"
  by (induction ns arbitrary: fs)
     (auto split: if_splits sum.splits dest: unlink_raises_Exception)

lemma wait_loop_files: "files (wait_loop en pid start timeout w) = files w"
proof (induction en pid start timeout w rule: wait_loop.induct)
  case (1 en pid start timeout w)
  show ?case
  proof (cases "clock w - start < timeout")
    case False
    then show ?thesis
      by (subst wait_loop.simps) (simp add: kill_process_def log_event_def)
  next
    case True
    show ?thesis
    proof (cases "pid_gone en pid (clock w)")
      case True
      with \<open>clock w - start < timeout\<close> show ?thesis
        by (subst wait_loop.simps) (simp add: log_event_def)
    next
      case False
      with True "1.IH" show ?thesis
        by (subst wait_loop.simps) (simp add: log_event_def sleep_def)
    qed
  qed
qed

lemma stop_old_process_files: "files (stop_old_process en pid w) = files w"
  by (simp add: stop_old_process_def wait_process_end_def wait_loop_files
      kill_process_def log_event_def sleep_def)

section \<open>The metadata directory\<close>

lemma remove_shrinks: "exists (remove p fs) q \<Longrightarrow> exists fs q"
proof (cases "prefix p q")
  case True
  then obtain r where q: "q = p @ r" by (auto simp: prefix_def)
  assume e: "exists (remove p fs) q"
  show ?thesis
  proof (cases "p = []")
    case True
    with e show ?thesis by simp
  next
    case False
    from remove_same[OF False, of fs r] e q show ?thesis by (simp add: exists_def)
  qed
next
  case False
  assume e: "exists (remove p fs) q"
  show ?thesis
  proof (cases "prefix q p")
    case True
    then obtain r where p: "p = q @ r" by (auto simp: prefix_def)
    with False have "r \<noteq> []" by auto
    from remove_above[OF this, of q fs] e p show ?thesis by (auto simp: exists_def)
  next
    case False
    with \<open>\<not> prefix p q\<close> remove_other[of p q fs] e show ?thesis by (simp add: exists_def)
  qed
qed

lemma remove_gone: "p \<noteq> [] \<Longrightarrow> \<not> exists (remove p fs) p"
  using remove_same[of p fs "[]"] by (simp add: exists_def)

lemma unlink_present_gone:
  "unlink_present d ns fs = (None, fs') \<Longrightarrow>
     (\<forall>n\<in>set ns. \<not> exists fs' (d @ [n])) \<and> (\<forall>q. exists fs' q \<longrightarrow> exists fs q)"
proof (induction ns arbitrary: fs)
  case Nil
  then show ?case by simp
next
  case (Cons n ns)
  show ?case
  proof (cases "exists fs (d @ [n])")
    case False
    with Cons.prems have r: "unlink_present d ns fs = (None, fs')" by simp
    from Cons.IH[OF r] False show ?thesis by auto
  next
    case True
    with Cons.prems obtain fs1 where u: "unlink (d @ [n]) fs = Inr fs1"
      and r: "unlink_present d ns fs1 = (None, fs')"
      by (auto split: sum.splits)
    from u have fs1: "fs1 = remove (d @ [n]) fs"
      by (auto simp: unlink_def split: option.splits node.splits)
    then have g: "\<not> exists fs1 (d @ [n])" using remove_gone[of "d @ [n]" fs] by simp
    from Cons.IH[OF r] g fs1 remove_shrinks show ?thesis by auto
  qed
qed

lemma unlink_present_other:
  "(\<forall>n\<in>set ns. separate q (d @ [n])) \<Longrightarrow>
     lookup (snd (unlink_present d ns fs)) q = lookup fs q"
proof (induction ns arbitrary: fs)
  case Nil
  show ?case by simp
next
  case (Cons n ns)
  then have q: "separate q (d @ [n])" and qs: "\<forall>n\<in>set ns. separate q (d @ [n])" by simp_all
  show ?case
  proof (cases "exists fs (d @ [n])")
    case False
    with Cons.IH[OF qs] show ?thesis by simp
  next
    case True
    show ?thesis
    proof (cases "unlink (d @ [n]) fs")
      case (Inl e)
      with True show ?thesis by simp
    next
      case (Inr fs1)
      then have "fs1 = remove (d @ [n]) fs"
        by (auto simp: unlink_def split: option.splits node.splits)
      with q have "lookup fs1 q = lookup fs q" by (simp add: separate_def remove_other)
      with Cons.IH[OF qs, of fs1] True Inr show ?thesis by simp
    qed
  qed
qed



lemma unlink_present_nothing:
  "(\<forall>n\<in>set ns. \<not> exists fs (d @ [n])) \<Longrightarrow> unlink_present d ns fs = (None, fs)"
  by (induction ns) simp_all

lemma write_bytes_same: "write_bytes p c fs = Inr fs' \<Longrightarrow> lookup fs' p = Some (File c)"
  using store_same[of False p "File c" fs fs' "[]"]
  by (auto simp: write_bytes_def split: if_splits)

lemma write_bytes_other:
  "write_bytes p c fs = Inr fs' \<Longrightarrow> separate q p \<Longrightarrow> lookup fs' q = lookup fs q"
  by (auto simp: write_bytes_def separate_def split: if_splits dest: store_other)

lemma copy2_fresh:
  "copy2 s d fs = Inr fs' \<Longrightarrow> \<not> exists fs d \<Longrightarrow> exists fs' d"
  using store_same[of False d _ fs fs' "[]"]
  by (auto simp: copy2_def exists_def is_dir_def split: option.splits node.splits if_splits)

lemma download_metadata_file_other:
  "separate q (md @ [f]) \<Longrightarrow>
     lookup (snd (download_metadata_file net md f tgt fs)) q = lookup fs q"
  by (auto simp: download_metadata_file_def split: sum.splits dest: write_bytes_other)

lemma download_metadata_file_done:
  "download_metadata_file net md f tgt fs = (None, fs') \<Longrightarrow> exists fs' (md @ [f])"
  by (auto simp: download_metadata_file_def exists_def split: sum.splits dest: write_bytes_same)

lemma download_all_other:
  "(\<forall>f\<in>set fs_names. separate q (md @ [f])) \<Longrightarrow>
     lookup (snd (download_all net md fs_names tgt fs)) q = lookup fs q"
proof (induction fs_names arbitrary: fs)
  case Nil
  show ?case by simp
next
  case (Cons f fnames)
  obtain r fs1 where d: "download_metadata_file net md f tgt fs = (r, fs1)"
    by (cases "download_metadata_file net md f tgt fs")
  have l: "lookup fs1 q = lookup fs q"
    using download_metadata_file_other[of q md f net tgt fs] Cons.prems d by simp
  show ?case
  proof (cases r)
    case None
    with d Cons.IH[of fs1] Cons.prems l show ?thesis by simp
  next
    case (Some e)
    with d l show ?thesis by simp
  qed
qed

lemma download_both_done:
  assumes "download_all net md [''1.root.json'', ''root.json''] tgt fs = (None, fs')"
  shows "exists fs' (md @ [''1.root.json'']) \<and> exists fs' (md @ [''root.json''])"
proof -
  from assms obtain fs1 where a: "download_metadata_file net md ''1.root.json'' tgt fs = (None, fs1)"
    and b: "download_metadata_file net md ''root.json'' tgt fs1 = (None, fs')"
    by (auto split: prod.splits option.splits)
  have "separate (md @ [''1.root.json'']) (md @ [''root.json''])"
    by (rule separate_siblings) simp
  from download_metadata_file_other[OF this, of net tgt fs1] b
  have "lookup fs' (md @ [''1.root.json'']) = lookup fs1 (md @ [''1.root.json''])" by simp
  with download_metadata_file_done[OF a] download_metadata_file_done[OF b]
  show ?thesis by (simp add: exists_def)
qed

lemma copy_bundled_other:
  assumes a: "separate q (md @ [''root.json''])" and b: "separate q (md @ [''1.root.json''])"
  shows "lookup (snd (copy_bundled_root_if_available rt md fs)) q = lookup fs q"
proof -
  have one: "\<And>s d f f'. copy2 s d f = Inr f' \<Longrightarrow> separate q d \<Longrightarrow> lookup f' q = lookup f q"
    by (rule copy2_other)
  show ?thesis
  proof (cases "find_bundled_root rt fs")
    case None
    then show ?thesis by (simp add: copy_bundled_root_if_available_def)
  next
    case (Some br)
    show ?thesis
    proof (cases "copy2 br (md @ [''root.json'']) fs")
      case (Inl e)
      with Some show ?thesis by (simp add: copy_bundled_root_if_available_def Let_def)
    next
      case (Inr fs1)
      note l1 = one[OF Inr a]
      show ?thesis
      proof (cases "copy2 br (md @ [''1.root.json'']) fs1")
        case (Inl e)
        with Some Inr l1 show ?thesis
          by (simp add: copy_bundled_root_if_available_def Let_def)
      next
        case r: (Inr fs2)
        from one[OF r b] l1 Some Inr r show ?thesis
          by (simp add: copy_bundled_root_if_available_def Let_def)
      qed
    qed
  qed
qed

lemma copy_bundled_present:
  "exists fs (md @ [''root.json'']) \<Longrightarrow>
     snd (copy_bundled_root_if_available rt md fs) = fs"
  by (auto simp: copy_bundled_root_if_available_def Let_def split: option.splits)

lemma copy_bundled_done:
  assumes "copy_bundled_root_if_available rt md fs = (Inr True, fs')"
  shows "exists fs' (md @ [''root.json''])"
proof (cases "exists fs (md @ [''root.json''])")
  case True
  with copy_bundled_present[OF True, of rt] assms show ?thesis by simp
next
  case False
  have sp: "separate (md @ [''root.json'']) (md @ [''1.root.json''])"
    by (rule separate_siblings) simp
  from assms False obtain b fs1 where c: "copy2 b (md @ [''root.json'']) fs = Inr fs1"
    and r: "fs' = fs1 \<or> copy2 b (md @ [''1.root.json'']) fs1 = Inr fs'"
    by (auto simp: copy_bundled_root_if_available_def Let_def
        split: option.splits sum.splits if_splits)
  from copy2_fresh[OF c False] have e: "exists fs1 (md @ [''root.json''])" .
  from r show ?thesis
  proof
    assume "fs' = fs1" with e show ?thesis by simp
  next
    assume "copy2 b (md @ [''1.root.json'']) fs1 = Inr fs'"
    from copy2_other[OF this sp] e show ?thesis by (simp add: exists_def)
  qed
qed

lemma initialize_metadata_cases:
  assumes "initialize_metadata rt net md tgt fs = (r, fs')"
  obtains
    (clear_raises) e where "unlink_present md mutable_names fs = (Some e, fs')" "r = Some e"
  | (initialized) "unlink_present md mutable_names fs = (None, fs')" "r = None"
      "exists fs' (md @ [''root.json''])" "exists fs' (md @ [''1.root.json''])"
  | (bundle_raises) fs1 e where "unlink_present md mutable_names fs = (None, fs1)"
      "\<not> (exists fs1 (md @ [''root.json'']) \<and> exists fs1 (md @ [''1.root.json'']))"
      "copy_bundled_root_if_available rt md fs1 = (Inl e, fs')" "r = Some e"
  | (bundled) fs1 where "unlink_present md mutable_names fs = (None, fs1)"
      "\<not> (exists fs1 (md @ [''root.json'']) \<and> exists fs1 (md @ [''1.root.json'']))"
      "copy_bundled_root_if_available rt md fs1 = (Inr True, fs')" "r = None"
      "exists fs' (md @ [''1.root.json''])"
  | (bundled_fetch) fs1 fs2 where "unlink_present md mutable_names fs = (None, fs1)"
      "\<not> (exists fs1 (md @ [''root.json'']) \<and> exists fs1 (md @ [''1.root.json'']))"
      "copy_bundled_root_if_available rt md fs1 = (Inr True, fs2)"
      "\<not> exists fs2 (md @ [''1.root.json''])"
      "download_metadata_file net md ''1.root.json'' tgt fs2 = (r, fs')"
  | (remote) fs1 fs2 where "unlink_present md mutable_names fs = (None, fs1)"
      "\<not> (exists fs1 (md @ [''root.json'']) \<and> exists fs1 (md @ [''1.root.json'']))"
      "copy_bundled_root_if_available rt md fs1 = (Inr False, fs2)"
      "download_all net md [''1.root.json'', ''root.json''] tgt fs2 = (r, fs')"
proof -
  obtain c fs1 where u: "unlink_present md mutable_names fs = (c, fs1)"
    by (cases "unlink_present md mutable_names fs")
  show ?thesis
  proof (cases c)
    case (Some e)
    with u assms show ?thesis by (intro clear_raises[of e]) (auto simp: initialize_metadata_def)
  next
    case None
    note c = this
    show ?thesis
    proof (cases "exists fs1 (md @ [''root.json'']) \<and> exists fs1 (md @ [''1.root.json''])")
      case True
      with u c assms show ?thesis by (intro initialized) (auto simp: initialize_metadata_def)
    next
      case False
      note ne = this
      obtain b fs2 where cb: "copy_bundled_root_if_available rt md fs1 = (b, fs2)"
        by (cases "copy_bundled_root_if_available rt md fs1")
      show ?thesis
      proof (cases b)
        case (Inl e)
        with assms u c ne cb show ?thesis
          by (intro bundle_raises[of fs1 e])
             (auto simp: initialize_metadata_def Let_def simp del: download_all.simps)
      next
        case (Inr t)
        show ?thesis
        proof (cases t)
          case False
          with Inr assms u c ne cb show ?thesis
            by (intro remote[of fs1 fs2])
               (auto simp: initialize_metadata_def Let_def simp del: download_all.simps)
        next
          case True
          note t = this
          show ?thesis
          proof (cases "exists fs2 (md @ [''1.root.json''])")
            case True
            with t Inr assms u c ne cb show ?thesis
              by (intro bundled[of fs1])
                 (auto simp: initialize_metadata_def Let_def simp del: download_all.simps)
          next
            case False
            with t Inr assms u c ne cb show ?thesis
              by (intro bundled_fetch[of fs1 fs2])
                 (auto simp: initialize_metadata_def Let_def simp del: download_all.simps)
          qed
        qed
      qed
    qed
  qed
qed

lemma mutable_not_root:
  "n \<in> set mutable_names \<Longrightarrow> n \<noteq> ''root.json'' \<and> n \<noteq> ''1.root.json''"
  by (auto simp: mutable_names_def)

lemma mutable_separate:
  assumes "n \<in> set mutable_names"
  shows "separate (md @ [n]) (md @ [''root.json''])" "separate (md @ [n]) (md @ [''1.root.json''])"
    "separate (md @ [''root.json'']) (md @ [n])" "separate (md @ [''1.root.json'']) (md @ [n])"
  using mutable_not_root[OF assms] by (auto intro: separate_siblings)

lemma initialize_metadata_other:
  assumes u: "unlink_present md mutable_names fs = (None, fs1)"
    and i: "initialize_metadata rt net md tgt fs = (r, fs')"
    and a: "separate q (md @ [''root.json''])" and b: "separate q (md @ [''1.root.json''])"
  shows "lookup fs' q = lookup fs1 q"
proof -
  note cb = copy_bundled_other[OF a b, of rt]
  from i show ?thesis
  proof (cases rule: initialize_metadata_cases)
    case (clear_raises e)
    with u show ?thesis by simp
  next
    case initialized
    with u show ?thesis by simp
  next
    case (bundle_raises f1 e)
    with u cb[of f1] show ?thesis by simp
  next
    case (bundled f1)
    with u cb[of f1] show ?thesis by simp
  next
    case (bundled_fetch f1 f2)
    with u cb[of f1] download_metadata_file_other[OF b, of net tgt f2] show ?thesis by simp
  next
    case (remote f1 f2)
    from a b have "\<forall>f\<in>set [''1.root.json'', ''root.json'']. separate q (md @ [f])" by simp
    from download_all_other[OF this, of net tgt f2] remote u cb[of f1] show ?thesis by simp
  qed
qed

lemma initialize_metadata_clears:
  assumes u: "unlink_present md mutable_names fs = (None, fs1)"
    and i: "initialize_metadata rt net md tgt fs = (r, fs')"
    and n: "n \<in> set mutable_names"
  shows "\<not> exists fs' (md @ [n])"
proof -
  from unlink_present_gone[OF u] n have "\<not> exists fs1 (md @ [n])" by simp
  with initialize_metadata_other[OF u i mutable_separate(1,2)[OF n]] show ?thesis
    by (simp add: exists_def)
qed

lemma initialize_metadata_success:
  assumes i: "initialize_metadata rt net md tgt fs = (None, fs')"
  shows "exists fs' (md @ [''root.json'']) \<and> exists fs' (md @ [''1.root.json'']) \<and>
         (\<forall>n\<in>set mutable_names. \<not> exists fs' (md @ [n]))"
proof -
  have sp: "separate (md @ [''root.json'']) (md @ [''1.root.json''])"
    by (rule separate_siblings) simp
  from i have roots: "exists fs' (md @ [''root.json'']) \<and> exists fs' (md @ [''1.root.json''])"
  proof (cases rule: initialize_metadata_cases)
    case initialized
    then show ?thesis by simp
  next
    case (bundled f1)
    with copy_bundled_done[OF bundled(3)] show ?thesis by simp
  next
    case (bundled_fetch f1 f2)
    from copy_bundled_done[OF bundled_fetch(3)]
      download_metadata_file_other[OF sp, of net tgt f2] bundled_fetch(5)
    have "exists fs' (md @ [''root.json''])" by (simp add: exists_def)
    with download_metadata_file_done[OF bundled_fetch(5)] show ?thesis by simp
  next
    case (remote f1 f2)
    with download_both_done[OF remote(4)] show ?thesis by simp
  qed simp_all
  from i obtain fs1 where u: "unlink_present md mutable_names fs = (None, fs1)"
    by (cases rule: initialize_metadata_cases) auto
  from initialize_metadata_clears[OF u i] roots show ?thesis by simp
qed

lemma initialize_metadata_fixpoint:
  assumes "exists fs (md @ [''root.json''])" "exists fs (md @ [''1.root.json''])"
    "\<forall>n\<in>set mutable_names. \<not> exists fs (md @ [n])"
  shows "initialize_metadata rt net md tgt fs = (None, fs)"
  using assms unlink_present_nothing[OF assms(3)]
  by (simp add: initialize_metadata_def)

lemma unlink_exists:
  assumes "unlink p fs = Inr fs'" and "q \<noteq> p"
  shows "exists fs' q = exists fs q"
proof -
  from assms(1) obtain c where f: "lookup fs p = Some (File c)" and r: "fs' = remove p fs"
    by (auto simp: unlink_def split: option.splits node.splits)
  show ?thesis
  proof (cases "prefix p q")
    case True
    then obtain t where q: "q = p @ t" by (auto simp: prefix_def)
    with assms(2) obtain x ts where t: "t = x # ts" by (cases t) auto
    from f have none: "lookup fs q = None"
      using q t by (simp add: lookup_append)
    show ?thesis
    proof (cases "p = []")
      case True
      with r show ?thesis by simp
    next
      case False
      from remove_same[OF False, of fs t] none q r show ?thesis by (simp add: exists_def)
    qed
  next
    case False
    note np = this
    show ?thesis
    proof (cases "prefix q p")
      case True
      then obtain t where p: "p = q @ t" by (auto simp: prefix_def)
      with assms(2) have "t \<noteq> []" by auto
      from remove_above[OF this, of q fs] p r show ?thesis by (simp add: exists_def)
    next
      case False
      with np remove_other[of p q fs] r show ?thesis by (simp add: exists_def)
    qed
  qed
qed

lemma unlink_present_exists:
  "unlink_present d ns fs = (None, fs') \<Longrightarrow> (\<forall>n\<in>set ns. q \<noteq> d @ [n]) \<Longrightarrow>
     exists fs' q = exists fs q"
proof (induction ns arbitrary: fs)
  case Nil
  then show ?case by simp
next
  case (Cons n ns)
  show ?case
  proof (cases "exists fs (d @ [n])")
    case False
    with Cons show ?thesis by simp
  next
    case True
    with Cons.prems obtain fs1 where u: "unlink (d @ [n]) fs = Inr fs1"
      and r: "unlink_present d ns fs1 = (None, fs')"
      by (auto split: sum.splits)
    from unlink_exists[OF u, of q] Cons.prems(2) have "exists fs1 q = exists fs q" by simp
    with Cons.IH[OF r] Cons.prems(2) show ?thesis by simp
  qed
qed

lemma unlink_present_bundled_root:
  assumes "unlink_present md mutable_names fs = (None, fs1)"
  shows "find_bundled_root rt fs1 = find_bundled_root rt fs"
proof -
  have "exists fs1 (p @ [''root.json'']) = exists fs (p @ [''root.json''])" for p
  proof -
    have "\<forall>n\<in>set mutable_names. p @ [''root.json''] \<noteq> md @ [n]"
      by (auto dest: mutable_not_root)
    from unlink_present_exists[OF assms this] show ?thesis .
  qed
  then show ?thesis by (simp add: find_bundled_root_def Let_def cong: option.case_cong if_cong)
qed



section \<open>The trace of the wait\<close>

lemma polls_append: "polls pid (Suc n) = polls pid n @ [Probe pid False, Sleep 500]"
  by (induction n) simp_all

lemma wait_loop_trace:
  "k \<le> 20 \<Longrightarrow> clock w = start + 500 * k \<Longrightarrow>
     \<exists>n. k \<le> n \<and> n \<le> 20 \<and>
       clock (wait_loop en pid start 10000 w) = start + 500 * n \<and>
       events (wait_loop en pid start 10000 w) =
         events w @ polls pid (n - k) @ [if n < 20 then Probe pid True else kill_event en pid] \<and>
       (n < 20 \<longrightarrow> pid_gone en pid (start + 500 * n)) \<and>
       (\<forall>j. k \<le> j \<and> j < n \<longrightarrow> \<not> pid_gone en pid (start + 500 * j))"
proof (induction "20 - k" arbitrary: k w)
  case 0
  then have k: "k = 20" by simp
  with 0 have "wait_loop en pid start 10000 w = kill_process en pid w"
    by (subst wait_loop.simps) simp
  with k 0 show ?case
    by (intro exI[of _ 20]) (auto simp: kill_process_def log_event_def)
next
  case (Suc d)
  then have k: "k < 20" by simp
  with Suc.prems have lt: "clock w - start < 10000" by simp
  show ?case
  proof (cases "pid_gone en pid (clock w)")
    case True
    with lt have "wait_loop en pid start 10000 w = log_event (Probe pid True) w"
      by (subst wait_loop.simps) simp
    with k True Suc.prems show ?thesis
      by (intro exI[of _ k]) (auto simp: log_event_def)
  next
    case False
    let ?w2 = "sleep 500 (log_event (Probe pid False) w)"
    from False lt have st: "wait_loop en pid start 10000 w = wait_loop en pid start 10000 ?w2"
      by (subst wait_loop.simps) simp
    have c2: "clock ?w2 = start + 500 * Suc k" using Suc.prems by (simp add: sleep_def log_event_def)
    have e2: "events ?w2 = events w @ [Probe pid False, Sleep 500]"
      by (simp add: sleep_def log_event_def)
    from Suc.hyps k have d: "d = 20 - Suc k" and k': "Suc k \<le> 20" by simp_all
    from Suc.hyps(1)[OF d k' c2] obtain n where n: "Suc k \<le> n" "n \<le> 20"
      and cl: "clock (wait_loop en pid start 10000 ?w2) = start + 500 * n"
      and ev: "events (wait_loop en pid start 10000 ?w2) =
         events ?w2 @ polls pid (n - Suc k) @ [if n < 20 then Probe pid True else kill_event en pid]"
      and g: "n < 20 \<longrightarrow> pid_gone en pid (start + 500 * n)"
      and a: "\<forall>j. Suc k \<le> j \<and> j < n \<longrightarrow> \<not> pid_gone en pid (start + 500 * j)" by blast
    from n have nk: "n - k = Suc (n - Suc k)" by simp
    have ev': "events (wait_loop en pid start 10000 w) =
         events w @ polls pid (n - k) @ [if n < 20 then Probe pid True else kill_event en pid]"
      unfolding st ev e2 nk by simp
    have a': "\<forall>j. k \<le> j \<and> j < n \<longrightarrow> \<not> pid_gone en pid (start + 500 * j)"
    proof (intro allI impI)
      fix j assume j: "k \<le> j \<and> j < n"
      show "\<not> pid_gone en pid (start + 500 * j)"
      proof (cases "j = k")
        case True
        with False Suc.prems show ?thesis by simp
      next
        case False
        with j a show ?thesis by simp
      qed
    qed
    from n cl ev' g a' st show ?thesis by (intro exI[of _ n]) simp
  qed
qed

lemma stop_old_process_trace:
  "\<exists>n\<le>20.
     clock (stop_old_process en pid w) = clock w + 2000 + 500 * n \<and>
     events (stop_old_process en pid w) =
       events w @ [Sleep 2000, kill_event en pid] @ polls pid n @
         [if n < 20 then Probe pid True else kill_event en pid] \<and>
     (n < 20 \<longrightarrow> pid_gone en pid (clock w + 2000 + 500 * n)) \<and>
     (\<forall>j<n. \<not> pid_gone en pid (clock w + 2000 + 500 * j))"
proof -
  let ?w1 = "kill_process en pid (sleep 2000 w)"
  have c: "clock ?w1 = clock w + 2000 + 500 * 0"
    and e: "events ?w1 = events w @ [Sleep 2000, kill_event en pid]"
    by (simp_all add: kill_process_def log_event_def sleep_def)
  from wait_loop_trace[OF _ c, of en pid] obtain n where "n \<le> 20"
    "clock (wait_loop en pid (clock w + 2000) 10000 ?w1) = clock w + 2000 + 500 * n"
    "events (wait_loop en pid (clock w + 2000) 10000 ?w1) =
         events ?w1 @ polls pid n @ [if n < 20 then Probe pid True else kill_event en pid]"
    "n < 20 \<longrightarrow> pid_gone en pid (clock w + 2000 + 500 * n)"
    "\<forall>j. j < n \<longrightarrow> \<not> pid_gone en pid (clock w + 2000 + 500 * j)"
    by auto
  moreover have "stop_old_process en pid w = wait_loop en pid (clock w + 2000) 10000 ?w1"
    by (simp add: stop_old_process_def wait_process_end_def kill_process_def log_event_def sleep_def)
  ultimately show ?thesis using e by (intro exI[of _ n]) simp
qed

lemma kill_only_after_polls:
  "kill_only_after_timeout (Some t) (polls pid n @ evs) =
     kill_only_after_timeout (Some (t + 500 * n)) evs"
proof (induction n arbitrary: t)
  case 0
  show ?case by simp
next
  case (Suc n)
  have "t + 500 + 500 * n = t + 500 * Suc n" by simp
  with Suc.IH[of "t + 500"] show ?case by simp
qed

lemma kill_event_rule:
  "kill_only_after_timeout t (kill_event en pid # evs) =
     ((case t of None \<Rightarrow> False | Some n \<Rightarrow> 10000 \<le> n) \<and> kill_only_after_timeout t evs)"
  by (simp add: kill_event_def)


lemma kill_only_after_first_polls:
  "kill_only_after_timeout None (polls pid (Suc m) @ evs) =
     kill_only_after_timeout (Some (500 + 500 * m)) evs"
  using kill_only_after_polls[of 500 pid m evs] by simp

lemma kill_only_after_wait:
  assumes "n \<le> 20" and "rest = [] \<or> rest = [Apply a b]"
  shows "kill_only_after_timeout None
           (polls pid n @ [if n < 20 then Probe pid True else kill_event en pid] @ rest)"
proof (cases n)
  case 0
  from assms(2) show ?thesis unfolding 0 by auto
next
  case (Suc m)
  show ?thesis
  proof (cases "n < 20")
    case True
    with assms(2) show ?thesis unfolding Suc kill_only_after_first_polls by auto
  next
    case False
    with assms(1) Suc have m: "m = 19" by simp
    from assms(2) show ?thesis
      unfolding Suc kill_only_after_first_polls m by (auto simp: kill_event_rule)
  qed
qed

lemma main_events:
  assumes "4 \<le> length argv" and "py_int en (argv ! 1) = Some pid"
  shows "events (snd (main en argv w)) =
           events (stop_old_process en pid w) @
             (if exists (files w) (resolve en (argv ! 3))
              then [Apply (resolve en (argv ! 3)) (resolve en (argv ! 2))] else [])"
proof -
  obtain c fs1 where cu:
    "copy_update (resolve en (argv ! 3)) (resolve en (argv ! 2)) (files w) = (c, fs1)"
    by (cases "copy_update (resolve en (argv ! 3)) (resolve en (argv ! 2)) (files w)")
  from assms have n: "\<not> length argv < 4" by simp
  show ?thesis
  proof (cases c)
    case None
    with cu n assms(2) show ?thesis
      by (simp add: main_def Let_def log_event_def stop_old_process_files)
  next
    case (Some e)
    with cu n assms(2) show ?thesis
      by (simp add: main_def Let_def log_event_def stop_old_process_files)
  qed
qed


section \<open>Exit codes of the updater\<close>

text \<open>
  Claim C3, as the code has it: \<open>main\<close> exits with 0 when the staged directory exists and
  \<open>copy_update\<close> returns, and with the one status 1 in each of the three failure modes:
  fewer than three arguments, a staged directory that does not exist, and an exception
  out of \<open>copy_update\<close>.
\<close>

theorem main_exit_codes:
  "(length argv < 4 \<longrightarrow> fst (main en argv w) = Exit 1) \<and>
   (4 \<le> length argv \<and> py_int en (argv ! 1) = Some pid \<and>
      \<not> exists (files w) (resolve en (argv ! 3)) \<longrightarrow> fst (main en argv w) = Exit 1) \<and>
   (4 \<le> length argv \<and> py_int en (argv ! 1) = Some pid \<and>
      exists (files w) (resolve en (argv ! 3)) \<and>
      copy_update (resolve en (argv ! 3)) (resolve en (argv ! 2)) (files w) = (Some e, fs1) \<and>
      is_Exception e \<longrightarrow> fst (main en argv w) = Exit 1) \<and>
   (4 \<le> length argv \<and> py_int en (argv ! 1) = Some pid \<and>
      exists (files w) (resolve en (argv ! 3)) \<and>
      copy_update (resolve en (argv ! 3)) (resolve en (argv ! 2)) (files w) = (None, fs1)
      \<longrightarrow> fst (main en argv w) = Exit 0)"
  by (simp add: main_def Let_def stop_old_process_files log_event_def)

theorem main_exit_codes_witness:
  "fst (main example_env [''updater.exe''] example_world) = Exit 1 \<and>
   fst (main example_env [''updater.exe'', ''7'', ''/install'', ''/missing''] example_world) = Exit 1 \<and>
   fst (main example_env [''updater.exe'', ''7'', ''/missing'', ''/staged''] example_world) = Exit 1 \<and>
   fst (main example_env [''updater.exe'', ''7'', ''/install'', ''/staged''] example_world) = Exit 0"
proof -
  have i: "py_int example_env ''7'' = Some 7"
    and r: "resolve example_env ''/install'' = [''install'']"
      "resolve example_env ''/staged'' = [''staged'']"
      "resolve example_env ''/missing'' = [''missing'']"
    and f: "files example_world = example_fs"
    by (simp_all add: example_env_def example_int_def example_resolve_def example_world_def)
  have a: "fst (main example_env [''updater.exe''] example_world) = Exit 1"
    using main_exit_codes [of "[''updater.exe'']" example_env example_world] by simp
  have "\<not> exists example_fs [''missing'']" by code_simp
  then have b: "fst (main example_env [''updater.exe'', ''7'', ''/install'', ''/missing'']
                  example_world) = Exit 1"
    using main_exit_codes [of "[''updater.exe'', ''7'', ''/install'', ''/missing'']"
        example_env example_world 7] i r f by simp
  have e: "exists example_fs [''staged'']" by code_simp
  have "copy_update [''staged''] [''missing''] example_fs = (Some FileNotFoundError, example_fs)"
    by code_simp
  then have c: "fst (main example_env [''updater.exe'', ''7'', ''/missing'', ''/staged'']
                  example_world) = Exit 1"
    using main_exit_codes [of "[''updater.exe'', ''7'', ''/missing'', ''/staged'']"
        example_env example_world 7 FileNotFoundError example_fs] i r f e by simp
  have "copy_update [''staged''] [''install''] example_fs =
          (None, snd (copy_update [''staged''] [''install''] example_fs))"
    by code_simp
  then have d: "fst (main example_env [''updater.exe'', ''7'', ''/install'', ''/staged'']
                  example_world) = Exit 0"
    using main_exit_codes [of "[''updater.exe'', ''7'', ''/install'', ''/staged'']"
        example_env example_world 7 _ "snd (copy_update [''staged''] [''install''] example_fs)"]
      i r f e by simp
  from a b c d show ?thesis by simp
qed

text \<open>
  The three failure modes do not have pairwise different exit codes: on the example,
  missing arguments, a missing staged directory and a failed copy all give the same one.
\<close>

theorem failure_codes_coincide:
  "\<not> distinct
      [exit_status (fst (main example_env [''updater.exe''] example_world)),
       exit_status (fst (main example_env [''updater.exe'', ''7'', ''/install'', ''/missing'']
                           example_world)),
       exit_status (fst (main example_env [''updater.exe'', ''7'', ''/missing'', ''/staged'']
                           example_world))]"
  by code_simp

section \<open>The update check\<close>

text \<open>
  Claim C4: when every error of the verification client is an \<open>Exception\<close> (a network
  failure, a signature failure, no releases), \<open>check_for_updates\<close> never raises: it
  returns a descriptor or \<open>None\<close>; it returns \<open>None\<close> whenever the client raised; and a
  descriptor it returns is one the client returned.
\<close>

theorem check_for_updates_never_raises:
  assumes "\<And>fs e. fst (client fs) = Inl e \<Longrightarrow> is_Exception e"
  shows "(\<exists>r. fst (check_for_updates client u) = Inr r) \<and>
         (\<forall>fs1 e. unlink_present (metadata_dir u) mutable_names (disk u) = (None, fs1) \<and>
              fst (client fs1) = Inl e \<longrightarrow> fst (check_for_updates client u) = Inr None) \<and>
         (\<forall>m. fst (check_for_updates client u) = Inr (Some m) \<longrightarrow>
              (\<exists>fs1. fst (client fs1) = Inr (Some m)))"
proof -
  obtain r fs1 where up: "unlink_present (metadata_dir u) mutable_names (disk u) = (r, fs1)"
    by (cases "unlink_present (metadata_dir u) mutable_names (disk u)")
  show ?thesis
  proof (cases r)
    case (Some e)
    with up have "is_Exception e" by (auto dest: unlink_present_raises_Exception)
    with up Some show ?thesis by (simp add: check_for_updates_def)
  next
    case None
    obtain c fs2 where cl: "client fs1 = (c, fs2)" by (cases "client fs1")
    show ?thesis
    proof (cases c)
      case (Inl e)
      with cl assms[of fs1 e] have "is_Exception e" by simp
      with up None cl Inl show ?thesis by (simp add: check_for_updates_def)
    next
      case (Inr m)
      with up None cl show ?thesis
        by (cases m) (auto simp: check_for_updates_def intro: exI[of _ fs1])
    qed
  qed
qed

theorem check_for_updates_never_raises_witness:
  "fst (check_for_updates failing_client example_updater) = Inr None"
proof -
  have h: "\<And>fs e. fst (failing_client fs) = Inl e \<Longrightarrow> is_Exception e"
    by (auto simp: failing_client_def)
  have u: "unlink_present (metadata_dir example_updater) mutable_names (disk example_updater)
            = (None, Dir [(''metadata'', Dir [(''root.json'', File ''pinned'')]), (''app'', Dir [])])"
    by code_simp
  from check_for_updates_never_raises
         [where client = failing_client and u = example_updater, OF h] u
  show ?thesis by (auto simp: failing_client_def)
qed



section \<open>The handover\<close>

text \<open>
  Claim C5, as the code has it: when \<open>updater.exe\<close> exists in the destination directory
  and the launch does not raise, \<open>custom_install\<close> launches exactly one process, the
  updater with the arguments (own PID, destination directory, source directory), and
  leaves by \<open>SystemExit\<close> with status 0; it does not return, \<open>download_and_apply_update\<close>
  lets the \<open>SystemExit\<close> through, and so does \<open>update\<close>: the process ends with status 0.
\<close>

theorem custom_install_hands_over:
  assumes "exists fs (dst_dir @ [''updater.exe''])"
    and "popen [StrPath (dst_dir @ [''updater.exe'']), StrInt pid, StrPath dst_dir, StrPath src_dir] = None"
  shows "custom_install popen pid src_dir dst_dir fs =
           (SystemExit 0,
            [[StrPath (dst_dir @ [''updater.exe'']), StrInt pid, StrPath dst_dir, StrPath src_dir]]) \<and>
         download_and_apply_update (Some (fst (custom_install popen pid src_dir dst_dir fs))) =
           Inl (SystemExit 0) \<and>
         update None (Inr (Some m))
           (download_and_apply_update (Some (fst (custom_install popen pid src_dir dst_dir fs))))
           input_raises = Some (SystemExit 0)"
  using assms
  by (simp add: custom_install_def download_and_apply_update_def update_def Let_def)

theorem custom_install_hands_over_witness:
  "custom_install (\<lambda>c. None) 7 [''staged''] [''install''] example_fs =
     (SystemExit 0,
      [[StrPath [''install'', ''updater.exe''], StrInt 7, StrPath [''install''], StrPath [''staged'']]])"
proof -
  have e: "exists example_fs ([''install''] @ [''updater.exe''])" by code_simp
  from custom_install_hands_over [OF e, of "\<lambda>c. None" 7 "[''staged'']"] show ?thesis by simp
qed

text \<open>
  The status of the handover is not one of its own: it is the status with which \<open>update\<close>
  ends the process when \<open>download_and_apply_update\<close> returned \<open>True\<close> and nothing was
  handed over, and the status of the updater's own success.
\<close>

theorem handover_status_is_shared:
  "fst (custom_install (\<lambda>c. None) 7 [''staged''] [''install''] example_fs) = SystemExit 0 \<and>
   update None (Inr (Some \<lparr>filename = ''App-1.1.0.tar.gz'', base_version = ''1.1.0''\<rparr>))
     (Inr True) None = Some (SystemExit 0) \<and>
   fst (main example_env [''updater.exe'', ''7'', ''/install'', ''/staged''] example_world) = Exit 0"
proof -
  have a: "fst (custom_install (\<lambda>c. None) 7 [''staged''] [''install''] example_fs) = SystemExit 0"
    by code_simp
  have b: "update None (Inr (Some \<lparr>filename = ''App-1.1.0.tar.gz'', base_version = ''1.1.0''\<rparr>))
     (Inr True) None = Some (SystemExit 0)"
    by (simp add: update_def)
  have c: "fst (main example_env [''updater.exe'', ''7'', ''/install'', ''/staged''] example_world)
             = Exit 0"
    by code_simp
  from a b c show ?thesis by simp
qed

section \<open>Apply and cleanup\<close>

text \<open>
  Claim C1: when the staged directory and the destination are directories, neither at or
  below the other, \<open>copy_update\<close> returns without an exception, and afterwards every
  entry directly under the destination whose name is an entry of the staged directory is
  the staged entry (the whole subtree, nothing of the old entry left), every other entry
  directly under the destination is what it was, and so is everything outside the
  destination. The witness is the example of staging \<open>{a.txt, sub/b.txt}\<close> into
  \<open>{a.txt(old), c.txt}\<close>.
\<close>

theorem copy_update_replaces_top_level:
  assumes "separate extract_dir destino"
    and "lookup fs extract_dir = Some (Dir es)"
    and "is_dir fs destino"
  shows "\<exists>fs'. copy_update extract_dir destino fs = (None, fs') \<and>
           (\<forall>n. lookup fs' (destino @ [n]) =
                  (if n \<in> fst ` set es then lookup fs (extract_dir @ [n])
                   else lookup fs (destino @ [n]))) \<and>
           (\<forall>q. separate q destino \<longrightarrow> lookup fs' q = lookup fs q)"
proof -
  have "set (map fst es) \<subseteq> fst ` set es" by simp
  from copy_items_replaces[OF assms this] obtain fs' where
    r: "copy_items extract_dir destino (map fst es) fs = (None, fs')"
    and g: "\<forall>n. lookup fs' (destino @ [n]) =
                  (if n \<in> set (map fst es) then map_of es n else lookup fs (destino @ [n]))"
    and h: "\<forall>q. separate q destino \<longrightarrow> lookup fs' q = lookup fs q" by blast
  have "\<And>n. lookup fs (extract_dir @ [n]) = map_of es n"
    using assms(2) by (simp add: lookup_append split: option.splits)
  with r g h assms(2) show ?thesis
    by (auto simp: copy_update_def iterdir_def)
qed

theorem copy_update_replaces_top_level_witness:
  "copy_update [''staged''] [''install''] apply_example_fs =
     (None,
      Dir [(''install'', Dir [(''c.txt'', File ''keep''), (''a.txt'', File ''new''),
                              (''sub'', Dir [(''b.txt'', File ''b'')])]),
           (''staged'', Dir [(''a.txt'', File ''new''), (''sub'', Dir [(''b.txt'', File ''b'')])])]) \<and>
   lookup (snd (copy_update [''staged''] [''install''] apply_example_fs)) [''install'', ''a.txt'']
     = Some (File ''new'') \<and>
   lookup (snd (copy_update [''staged''] [''install''] apply_example_fs)) [''install'', ''sub'']
     = Some (Dir [(''b.txt'', File ''b'')]) \<and>
   lookup (snd (copy_update [''staged''] [''install''] apply_example_fs)) [''install'', ''c.txt'']
     = Some (File ''keep'')"
proof -
  have s: "separate [''staged''] [''install'']" by (simp add: separate_def)
  have l: "lookup apply_example_fs [''staged''] =
             Some (Dir [(''a.txt'', File ''new''), (''sub'', Dir [(''b.txt'', File ''b'')])])"
    by (simp add: apply_example_fs_def)
  have d: "is_dir apply_example_fs [''install'']"
    by (simp add: apply_example_fs_def is_dir_def)
  from copy_update_replaces_top_level[OF s l d] obtain fs' where
    r: "copy_update [''staged''] [''install''] apply_example_fs = (None, fs')"
    and g: "\<forall>n. lookup fs' ([''install''] @ [n]) =
                  (if n \<in> fst ` set [(''a.txt'', File ''new''), (''sub'', Dir [(''b.txt'', File ''b'')])]
                   then lookup apply_example_fs ([''staged''] @ [n])
                   else lookup apply_example_fs ([''install''] @ [n]))" by blast
  have e: "copy_update [''staged''] [''install''] apply_example_fs =
     (None,
      Dir [(''install'', Dir [(''c.txt'', File ''keep''), (''a.txt'', File ''new''),
                              (''sub'', Dir [(''b.txt'', File ''b'')])]),
           (''staged'', Dir [(''a.txt'', File ''new''), (''sub'', Dir [(''b.txt'', File ''b'')])])])"
    by code_simp
  from g[rule_format, of "''a.txt''"] g[rule_format, of "''sub''"] g[rule_format, of "''c.txt''"] r e
  show ?thesis by (simp add: apply_example_fs_def)
qed



section \<open>Trust bootstrap\<close>



text \<open>
  Claim C8: when \<open>root.json\<close> and \<open>1.root.json\<close> both exist, \<open>_initialize_metadata\<close>
  leaves both as they are; and a run that returned, run again on the file system it left
  and with the same origin, returns and changes nothing at all.
\<close>

theorem bootstrap_idempotent:
  "(exists fs (md @ [''root.json'']) \<and> exists fs (md @ [''1.root.json'']) \<longrightarrow>
      lookup (snd (initialize_metadata rt net md tgt fs)) (md @ [''root.json'']) =
        lookup fs (md @ [''root.json'']) \<and>
      lookup (snd (initialize_metadata rt net md tgt fs)) (md @ [''1.root.json'']) =
        lookup fs (md @ [''1.root.json''])) \<and>
   (initialize_metadata rt net md tgt fs = (None, fs1) \<longrightarrow>
      initialize_metadata rt net md tgt fs1 = (None, fs1))"
proof (rule conjI; rule impI)
  assume i: "initialize_metadata rt net md tgt fs = (None, fs1)"
  from initialize_metadata_success[OF i] show "initialize_metadata rt net md tgt fs1 = (None, fs1)"
    by (intro initialize_metadata_fixpoint) simp_all
next
  assume e: "exists fs (md @ [''root.json'']) \<and> exists fs (md @ [''1.root.json''])"
  obtain r fs' where i: "initialize_metadata rt net md tgt fs = (r, fs')"
    by (cases "initialize_metadata rt net md tgt fs")
  have k: "lookup (snd (unlink_present md mutable_names fs)) (md @ [x]) = lookup fs (md @ [x])"
    if "x = ''root.json'' \<or> x = ''1.root.json''" for x
    using that by (intro unlink_present_other) (auto dest: mutable_separate)
  have "lookup fs' (md @ [''root.json'']) = lookup fs (md @ [''root.json'']) \<and>
        lookup fs' (md @ [''1.root.json'']) = lookup fs (md @ [''1.root.json''])"
    using i
  proof (cases rule: initialize_metadata_cases)
    case (clear_raises e)
    with k show ?thesis by simp
  next
    case initialized
    with k[of "''root.json''"] k[of "''1.root.json''"] show ?thesis by simp
  next
    case (bundle_raises f1 e')
    with k[of "''root.json''"] k[of "''1.root.json''"] e show ?thesis by (simp add: exists_def)
  next
    case (bundled f1)
    with k[of "''root.json''"] k[of "''1.root.json''"] e show ?thesis by (simp add: exists_def)
  next
    case (bundled_fetch f1 f2)
    with k[of "''root.json''"] k[of "''1.root.json''"] e show ?thesis by (simp add: exists_def)
  next
    case (remote f1 f2)
    with k[of "''root.json''"] k[of "''1.root.json''"] e show ?thesis by (simp add: exists_def)
  qed
  with i show "lookup (snd (initialize_metadata rt net md tgt fs)) (md @ [''root.json'']) =
        lookup fs (md @ [''root.json'']) \<and>
      lookup (snd (initialize_metadata rt net md tgt fs)) (md @ [''1.root.json'']) =
        lookup fs (md @ [''1.root.json''])" by simp
qed

theorem bootstrap_idempotent_witness:
  "lookup (snd (initialize_metadata example_runtime example_net [''metadata''] ''http://origin/''
                  example_initialized_fs)) [''metadata'', ''root.json''] = Some (File ''pinned'') \<and>
   initialize_metadata example_runtime example_net [''metadata''] ''http://origin/''
     (Dir [(''metadata'', Dir [(''root.json'', File ''fresh''), (''1.root.json'', File ''fresh'')]),
           (''app'', Dir [])]) =
     (None, Dir [(''metadata'', Dir [(''root.json'', File ''fresh''), (''1.root.json'', File ''fresh'')]),
                 (''app'', Dir [])])"
proof -
  have e: "exists example_initialized_fs ([''metadata''] @ [''root.json'']) \<and>
           exists example_initialized_fs ([''metadata''] @ [''1.root.json''])"
    by (simp add: example_initialized_fs_def exists_def)
  have l: "lookup example_initialized_fs [''metadata'', ''root.json''] = Some (File ''pinned'')"
    by (simp add: example_initialized_fs_def)
  have i: "initialize_metadata example_runtime example_net [''metadata''] ''http://origin/''
             example_metadata_fs =
           (None, Dir [(''metadata'', Dir [(''root.json'', File ''fresh''),
                                           (''1.root.json'', File ''fresh'')]),
                       (''app'', Dir [])])"
    by code_simp
  from bootstrap_idempotent [of example_initialized_fs "[''metadata'']" example_runtime
      example_net "''http://origin/''"] e l
  have a: "lookup (snd (initialize_metadata example_runtime example_net [''metadata'']
             ''http://origin/'' example_initialized_fs)) [''metadata'', ''root.json'']
           = Some (File ''pinned'')" by simp
  from bootstrap_idempotent [of example_metadata_fs "[''metadata'']" example_runtime
      example_net "''http://origin/''"] i
  have b: "initialize_metadata example_runtime example_net [''metadata''] ''http://origin/''
     (Dir [(''metadata'', Dir [(''root.json'', File ''fresh''), (''1.root.json'', File ''fresh'')]),
           (''app'', Dir [])]) =
     (None, Dir [(''metadata'', Dir [(''root.json'', File ''fresh''), (''1.root.json'', File ''fresh'')]),
                 (''app'', Dir [])])" by blast
  from a b show ?thesis by simp
qed

text \<open>
  Claim C10, as the code has it: once \<open>root.json\<close> exists, \<open>_initialize_metadata\<close>
  leaves it as it is whenever \<open>1.root.json\<close> exists too or a bundled \<open>root.json\<close> is
  found, however the run ends.
\<close>

theorem bootstrap_keeps_root:
  assumes root: "exists fs (md @ [''root.json''])"
    and alt: "exists fs (md @ [''1.root.json'']) \<or> find_bundled_root rt fs \<noteq> None"
  shows "lookup (snd (initialize_metadata rt net md tgt fs)) (md @ [''root.json'']) =
           lookup fs (md @ [''root.json''])"
proof -
  obtain r fs' where i: "initialize_metadata rt net md tgt fs = (r, fs')"
    by (cases "initialize_metadata rt net md tgt fs")
  have sp: "separate (md @ [''root.json'']) (md @ [''1.root.json''])"
    by (rule separate_siblings) simp
  have k: "lookup (snd (unlink_present md mutable_names fs)) (md @ [x]) = lookup fs (md @ [x])"
    if "x = ''root.json'' \<or> x = ''1.root.json''" for x
    using that by (intro unlink_present_other) (auto dest: mutable_separate)
  have "lookup fs' (md @ [''root.json'']) = lookup fs (md @ [''root.json''])"
    using i
  proof (cases rule: initialize_metadata_cases)
    case (clear_raises e)
    with k show ?thesis by simp
  next
    case initialized
    with k[of "''root.json''"] show ?thesis by simp
  next
    case (bundle_raises f1 e')
    with k[of "''root.json''"] root have "exists f1 (md @ [''root.json''])"
      by (simp add: exists_def)
    from copy_bundled_present[OF this, of rt] bundle_raises k[of "''root.json''"]
    show ?thesis by simp
  next
    case (bundled f1)
    with k[of "''root.json''"] root have "exists f1 (md @ [''root.json''])"
      by (simp add: exists_def)
    from copy_bundled_present[OF this, of rt] bundled k[of "''root.json''"]
    show ?thesis by simp
  next
    case (bundled_fetch f1 f2)
    with k[of "''root.json''"] root have "exists f1 (md @ [''root.json''])"
      by (simp add: exists_def)
    from copy_bundled_present[OF this, of rt] bundled_fetch have "f2 = f1" by simp
    with download_metadata_file_other[OF sp, of net tgt f2] bundled_fetch k[of "''root.json''"]
    show ?thesis by simp
  next
    case (remote f1 f2)
    with k[of "''root.json''"] k[of "''1.root.json''"] root
    have "\<not> exists fs (md @ [''1.root.json''])" by (simp add: exists_def)
    with alt have "find_bundled_root rt fs \<noteq> None" by simp
    with unlink_present_bundled_root[OF remote(1), of rt]
    have "find_bundled_root rt f1 \<noteq> None" by simp
    with remote(3) show ?thesis
      by (auto simp: copy_bundled_root_if_available_def Let_def
          split: option.splits sum.splits if_splits)
  qed
  with i show ?thesis by simp
qed

theorem bootstrap_keeps_root_witness:
  "lookup (snd (initialize_metadata example_runtime example_net [''metadata''] ''http://origin/''
                  example_bundled_fs)) [''metadata'', ''root.json''] = Some (File ''pinned'')"
proof -
  have r: "exists example_bundled_fs ([''metadata''] @ [''root.json''])"
    by (simp add: example_bundled_fs_def exists_def)
  have "find_bundled_root example_runtime example_bundled_fs = Some [''app'', ''root.json'']"
    by (simp add: find_bundled_root_def example_runtime_def example_bundled_fs_def exists_def)
  then have b: "exists example_bundled_fs ([''metadata''] @ [''1.root.json'']) \<or>
                find_bundled_root example_runtime example_bundled_fs \<noteq> None" by simp
  from bootstrap_keeps_root [OF r b, of example_net "''http://origin/''"] show ?thesis
    by (simp add: example_bundled_fs_def)
qed

text \<open>
  With \<open>root.json\<close> in place, \<open>1.root.json\<close> missing and no bundled root, the remote
  fallback fetches both files and the pinned \<open>root.json\<close> is overwritten.
\<close>

theorem bootstrap_overwrites_root:
  "lookup example_metadata_fs [''metadata'', ''root.json''] = Some (File ''pinned'') \<and>
   lookup (snd (initialize_metadata example_runtime example_net [''metadata''] ''http://origin/''
                  example_metadata_fs)) [''metadata'', ''root.json''] = Some (File ''fresh'')"
  by code_simp

section \<open>Stopping the old process before Apply\<close>

text \<open>
  Claim C2, as the code has it: with a PID that parses, \<open>main\<close> first sleeps two seconds
  and sends one termination request; then it probes the PID every half second, \<open>n\<close> times
  finding it alive, with \<open>n\<close> at most 20; the wait ends either with a probe that finds the
  process gone (\<open>n < 20\<close>) or, after the ten seconds of 20 probes, with a second termination
  request; and \<open>copy_update\<close> is called only after that, and only when the staged
  directory exists. From the first probe on, a termination is issued only after the
  timeout.
\<close>

theorem main_stops_then_applies:
  assumes "4 \<le> length argv" and "py_int en (argv ! 1) = Some pid"
  shows "\<exists>n rest. n \<le> 20 \<and>
           events (snd (main en argv w)) =
             events w @ [Sleep 2000, kill_event en pid] @ polls pid n @
               [if n < 20 then Probe pid True else kill_event en pid] @ rest \<and>
           rest = (if exists (files w) (resolve en (argv ! 3))
                   then [Apply (resolve en (argv ! 3)) (resolve en (argv ! 2))] else []) \<and>
           (n < 20 \<longrightarrow> pid_gone en pid (clock w + 2000 + 500 * n)) \<and>
           (\<forall>j<n. \<not> pid_gone en pid (clock w + 2000 + 500 * j)) \<and>
           kill_only_after_timeout None
             (polls pid n @ [if n < 20 then Probe pid True else kill_event en pid] @ rest)"
proof -
  from stop_old_process_trace[of en pid w] obtain n where n: "n \<le> 20"
    and ev: "events (stop_old_process en pid w) =
       events w @ [Sleep 2000, kill_event en pid] @ polls pid n @
         [if n < 20 then Probe pid True else kill_event en pid]"
    and g: "n < 20 \<longrightarrow> pid_gone en pid (clock w + 2000 + 500 * n)"
    and a: "\<forall>j<n. \<not> pid_gone en pid (clock w + 2000 + 500 * j)" by blast
  define rest where "rest = (if exists (files w) (resolve en (argv ! 3))
                   then [Apply (resolve en (argv ! 3)) (resolve en (argv ! 2))] else [])"
  then have r: "rest = [] \<or> rest = [Apply (resolve en (argv ! 3)) (resolve en (argv ! 2))]"
    by simp
  have m: "events (snd (main en argv w)) =
             events w @ [Sleep 2000, kill_event en pid] @ polls pid n @
               [if n < 20 then Probe pid True else kill_event en pid] @ rest"
    unfolding main_events[OF assms] ev rest_def by simp
  note k = kill_only_after_wait[OF n r, of pid en]
  show ?thesis
    apply (rule exI[of _ n])
    apply (rule exI[of _ rest])
    using n m g a k rest_def apply blast
    done
qed

theorem main_stops_then_applies_witness:
  "kill_only_after_timeout None
     (drop 2 (events (snd (main stubborn_env [''updater.exe'', ''7'', ''/install'', ''/staged'']
                             example_world))))"
proof -
  have l: "4 \<le> length [''updater.exe'', ''7'', ''/install'', ''/staged'']" by simp
  have i: "py_int stubborn_env ([''updater.exe'', ''7'', ''/install'', ''/staged''] ! 1) = Some 7"
    by (simp add: stubborn_env_def example_int_def)
  from main_stops_then_applies [OF l i, of example_world] obtain n rest where
    ev: "events (snd (main stubborn_env [''updater.exe'', ''7'', ''/install'', ''/staged'']
                        example_world)) =
           events example_world @ [Sleep 2000, kill_event stubborn_env 7] @ polls 7 n @
             [if n < 20 then Probe 7 True else kill_event stubborn_env 7] @ rest"
    and k: "kill_only_after_timeout None
              (polls 7 n @ [if n < 20 then Probe 7 True else kill_event stubborn_env 7] @ rest)"
    by blast
  have "events example_world = []" by (simp add: example_world_def)
  with ev k show ?thesis by simp
qed

text \<open>
  The first termination request does not wait for the timeout: on the example, where the
  old process is gone after three seconds, the request goes out before the first probe.
\<close>

theorem main_kills_before_waiting:
  "events (snd (main example_env [''updater.exe'', ''7'', ''/install'', ''/staged''] example_world)) =
     [Sleep 2000, Sigterm 7, Probe 7 False, Sleep 500, Probe 7 False, Sleep 500, Probe 7 True,
      Apply [''staged''] [''install'']] \<and>
   \<not> kill_only_after_timeout None
       (events (snd (main example_env [''updater.exe'', ''7'', ''/install'', ''/staged'']
                       example_world)))"
proof -
  have e: "events (snd (main example_env [''updater.exe'', ''7'', ''/install'', ''/staged'']
                          example_world)) =
     [Sleep 2000, Sigterm 7, Probe 7 False, Sleep 500, Probe 7 False, Sleep 500, Probe 7 True,
      Apply [''staged''] [''install'']]"
    by code_simp
  show ?thesis unfolding e by simp
qed

end
